theory Spec2Isabelle
  imports Complex_Main "HOL-Library.Multiset"
begin

section \<open>The bridge-crossing program (crossing.cpp)\<close>

text \<open>
  The program moves a group of people over a bridge that holds at most two of them.
  The embedding follows the classes of the source one by one: \<open>Person\<close>, \<open>Area\<close>,
  \<open>CrossingState\<close>, \<open>CrossingHistory\<close> and \<open>FastCrossing\<close>. Every \<open>assert\<close> of the
  source is a branch of the model that returns an error, and the main loop of
  \<open>FastCrossing::cross\<close> is a partial function whose value \<open>None\<close> stands for a run that
  never returns.
\<close>

subsection \<open>Person\<close>

text \<open>
  \<open>struct Person { std::string name; int ID; double time; }\<close>. The identifier is only
  ever compared, never computed with, so it is an \<open>int\<close>; the crossing time is a real
  number (the source's \<open>double\<close>, without NaN and without rounding: the only arithmetic
  on times is the sum of \<open>total_time\<close>).
\<close>

record Person =
  name :: string
  ID :: int
  time :: real

text \<open>\<open>operator ==\<close> on persons compares the identifiers only.\<close>

definition person_eq :: "Person \<Rightarrow> Person \<Rightarrow> bool" where
  "person_eq lhs rhs = (ID lhs = ID rhs)"

text \<open>\<open>operator <\<close> on persons: by time, ties broken by identifier.\<close>

definition person_less :: "Person \<Rightarrow> Person \<Rightarrow> bool" where
  "person_less lhs rhs =
     (if time lhs = time rhs then ID lhs < ID rhs else time lhs < time rhs)"

subsection \<open>Area\<close>

text \<open>
  An area holds a \<open>std::set<Person, std::less<Person>>\<close>: its members in ascending order
  of \<open>operator <\<close>, no two of them equivalent (neither less than the other). The model is
  the list of members in iteration order. \<open>set_insert\<close> and \<open>set_erase\<close> are
  \<open>std::set::insert\<close> and \<open>std::set::erase\<close> by key.
\<close>

type_synonym Area = "Person list"

fun set_insert :: "Person \<Rightarrow> Area \<Rightarrow> Area" where
  "set_insert p [] = [p]"
| "set_insert p (q # qs) =
     (if person_less p q then p # q # qs
      else if person_less q p then q # set_insert p qs
      else q # qs)"

fun set_erase :: "Person \<Rightarrow> Area \<Rightarrow> Area" where
  "set_erase p [] = []"
| "set_erase p (q # qs) =
     (if \<not> person_less p q \<and> \<not> person_less q p then qs else q # set_erase p qs)"

definition add_person :: "Person \<Rightarrow> Area \<Rightarrow> Area" where
  "add_person p a = set_insert p a"

text \<open>The constructor from a vector inserts the persons one after the other.\<close>

definition Area_of_vector :: "Person list \<Rightarrow> Area" where
  "Area_of_vector people = fold add_person people []"

definition size_area :: "Area \<Rightarrow> nat" where
  "size_area a = length a"

definition empty :: "Area \<Rightarrow> bool" where
  "empty a = (0 = size_area a)"

text \<open>The two kinds of \<open>assert\<close> of the source.\<close>

datatype error = EmptyArea | BridgeFull

definition fastest :: "Area \<Rightarrow> error + Person" where
  "fastest a = (if \<not> empty a then Inr (hd a) else Inl EmptyArea)"

definition slowest :: "Area \<Rightarrow> error + Person" where
  "slowest a = (if \<not> empty a then Inr (last a) else Inl EmptyArea)"

text \<open>
  \<open>transfer\<close> erases the person from this area and inserts it into the other one; the
  result is the pair (this area, other area) after the call.
\<close>

definition transfer :: "Person \<Rightarrow> Area \<Rightarrow> Area \<Rightarrow> Area \<times> Area" where
  "transfer p from to = (set_erase p from, set_insert p to)"

definition ebind :: "error + 'a \<Rightarrow> ('a \<Rightarrow> error + 'b) \<Rightarrow> error + 'b" where
  "ebind m f = (case m of Inl e \<Rightarrow> Inl e | Inr x \<Rightarrow> f x)"

lemma length_set_erase_le: "length (set_erase p a) \<le> length a"
  by (induction a) auto

lemma person_less_irrefl: "\<not> person_less p p"
  by (simp add: person_less_def)

lemma length_set_erase_mem: "p \<in> set a \<Longrightarrow> length (set_erase p a) < length a"
proof (induction a)
  case Nil
  then show ?case by simp
next
  case (Cons q qs)
  then show ?case
    using length_set_erase_le [of p qs] by (auto simp: person_less_irrefl)
qed

text \<open>\<open>while(!empty()) transfer(slowest(), to);\<close>\<close>

function transfer_all :: "Area \<Rightarrow> Area \<Rightarrow> error + Area \<times> Area" where
  "transfer_all from to =
     (if \<not> empty from then
        (case slowest from of
           Inl e \<Rightarrow> Inl e
         | Inr p \<Rightarrow> (case transfer p from to of (from', to') \<Rightarrow> transfer_all from' to'))
      else Inr (from, to))"
  by pat_completeness auto
termination
  by (relation "measure (\<lambda>(from, to). length from)")
     (auto simp: empty_def size_area_def slowest_def transfer_def
           split: if_splits intro: length_set_erase_mem)

declare transfer_all.simps [simp del]

text \<open>\<open>operator ==\<close> on areas is \<open>std::set\<close>'s: the same size, and the members equal pair
  by pair in iteration order, under \<open>operator ==\<close> of \<open>Person\<close>.\<close>

definition area_eq :: "Area \<Rightarrow> Area \<Rightarrow> bool" where
  "area_eq lhs rhs = (size_area lhs = size_area rhs \<and> list_all2 person_eq lhs rhs)"

subsection \<open>CrossingState\<close>

record CrossingState =
  lb :: Area
  bridge :: Area
  rb :: Area

text \<open>The constructor from a vector puts everybody on the left bank.\<close>

definition CrossingState_of_vector :: "Person list \<Rightarrow> CrossingState" where
  "CrossingState_of_vector people = \<lparr>lb = Area_of_vector people, bridge = [], rb = []\<rparr>"

definition l_to_b :: "Person \<Rightarrow> CrossingState \<Rightarrow> error + CrossingState" where
  "l_to_b p s =
     (if size_area (bridge s) < 2 then
        (case transfer p (lb s) (bridge s) of (l, b) \<Rightarrow> Inr (s\<lparr>lb := l, bridge := b\<rparr>))
      else Inl BridgeFull)"

definition b_to_r :: "Person \<Rightarrow> CrossingState \<Rightarrow> error + CrossingState" where
  "b_to_r p s =
     (case transfer p (bridge s) (rb s) of (b, r) \<Rightarrow> Inr (s\<lparr>bridge := b, rb := r\<rparr>))"

definition r_to_b :: "Person \<Rightarrow> CrossingState \<Rightarrow> error + CrossingState" where
  "r_to_b p s =
     (if size_area (bridge s) < 2 then
        (case transfer p (rb s) (bridge s) of (r, b) \<Rightarrow> Inr (s\<lparr>bridge := b, rb := r\<rparr>))
      else Inl BridgeFull)"

definition b_to_l :: "Person \<Rightarrow> CrossingState \<Rightarrow> error + CrossingState" where
  "b_to_l p s =
     (case transfer p (bridge s) (lb s) of (b, l) \<Rightarrow> Inr (s\<lparr>lb := l, bridge := b\<rparr>))"

definition all_b_to_r :: "CrossingState \<Rightarrow> error + CrossingState" where
  "all_b_to_r s =
     ebind (transfer_all (bridge s) (rb s)) (\<lambda>(b, r). Inr (s\<lparr>bridge := b, rb := r\<rparr>))"

definition all_b_to_l :: "CrossingState \<Rightarrow> error + CrossingState" where
  "all_b_to_l s =
     ebind (transfer_all (bridge s) (lb s)) (\<lambda>(b, l). Inr (s\<lparr>lb := l, bridge := b\<rparr>))"

definition speed_across_bridge :: "CrossingState \<Rightarrow> error + real" where
  "speed_across_bridge s =
     (if empty (bridge s) then Inr 0
      else ebind (slowest (bridge s)) (\<lambda>p. Inr (time p)))"

definition state_eq :: "CrossingState \<Rightarrow> CrossingState \<Rightarrow> bool" where
  "state_eq lhs rhs =
     (area_eq (lb lhs) (lb rhs) \<and> area_eq (bridge lhs) (bridge rhs) \<and> area_eq (rb lhs) (rb rhs))"

subsection \<open>CrossingHistory\<close>

type_synonym CrossingHistory = "CrossingState list"

definition record_state :: "CrossingState \<Rightarrow> CrossingHistory \<Rightarrow> CrossingHistory" where
  "record_state s h = h @ [s]"

text \<open>\<open>double t = 0; for (auto c: _history) t += c.speed_across_bridge(); return t;\<close>\<close>

fun total_time_from :: "real \<Rightarrow> CrossingHistory \<Rightarrow> error + real" where
  "total_time_from t [] = Inr t"
| "total_time_from t (c # cs) =
     ebind (speed_across_bridge c) (\<lambda>d. total_time_from (t + d) cs)"

definition total_time :: "CrossingHistory \<Rightarrow> error + real" where
  "total_time h = total_time_from 0 h"

definition visited :: "CrossingHistory \<Rightarrow> CrossingState \<Rightarrow> bool" where
  "visited h s = (0 \<noteq> length (filter (\<lambda>c. state_eq c s) h))"

subsection \<open>FastCrossing\<close>

record FastCrossing =
  hist :: CrossingHistory
  state :: CrossingState

definition snap :: "FastCrossing \<Rightarrow> FastCrossing" where
  "snap fc = fc\<lparr>hist := record_state (state fc) (hist fc)\<rparr>"

definition fastest_l_to_b :: "FastCrossing \<Rightarrow> error + FastCrossing" where
  "fastest_l_to_b fc =
     ebind (fastest (lb (state fc))) (\<lambda>p.
     ebind (l_to_b p (state fc)) (\<lambda>s. Inr (fc\<lparr>state := s\<rparr>)))"

definition fastest_r_to_b :: "FastCrossing \<Rightarrow> error + FastCrossing" where
  "fastest_r_to_b fc =
     ebind (fastest (rb (state fc))) (\<lambda>p.
     ebind (r_to_b p (state fc)) (\<lambda>s. Inr (fc\<lparr>state := s\<rparr>)))"

definition slowest_l_to_b :: "FastCrossing \<Rightarrow> error + FastCrossing" where
  "slowest_l_to_b fc =
     ebind (slowest (lb (state fc))) (\<lambda>p.
     ebind (l_to_b p (state fc)) (\<lambda>s. Inr (fc\<lparr>state := s\<rparr>)))"

definition fc_all_b_to_l :: "FastCrossing \<Rightarrow> error + FastCrossing" where
  "fc_all_b_to_l fc = ebind (all_b_to_l (state fc)) (\<lambda>s. Inr (fc\<lparr>state := s\<rparr>))"

definition fc_all_b_to_r :: "FastCrossing \<Rightarrow> error + FastCrossing" where
  "fc_all_b_to_r fc = ebind (all_b_to_r (state fc)) (\<lambda>s. Inr (fc\<lparr>state := s\<rparr>))"

definition left_empty :: "FastCrossing \<Rightarrow> bool" where
  "left_empty fc = empty (lb (state fc))"

definition retrieve_fastest :: "FastCrossing \<Rightarrow> error + FastCrossing" where
  "retrieve_fastest fc =
     ebind (fastest_r_to_b fc) (\<lambda>fc1.
     ebind (fc_all_b_to_l (snap fc1)) (\<lambda>fc2. Inr (snap fc2)))"

definition send_slowest :: "FastCrossing \<Rightarrow> error + FastCrossing" where
  "send_slowest fc =
     ebind (slowest_l_to_b fc) (\<lambda>fc1.
     ebind (slowest_l_to_b fc1) (\<lambda>fc2.
     ebind (fc_all_b_to_r (snap fc2)) (\<lambda>fc3. Inr (snap fc3))))"

text \<open>
  One pass through the body of \<open>while(!left_empty())\<close> in \<open>cross\<close>. The flag of the result
  says whether the pass left the loop through \<open>break\<close>.
\<close>

definition loop_body :: "FastCrossing \<Rightarrow> error + bool \<times> FastCrossing" where
  "loop_body fc =
     ebind (fastest_l_to_b fc) (\<lambda>fc1.
     ebind (fastest_l_to_b fc1) (\<lambda>fc2.
     ebind (fc_all_b_to_r (snap fc2)) (\<lambda>fc3.
       (let fc4 = snap fc3 in
        if left_empty fc4 then Inr (True, fc4)
        else
          ebind (retrieve_fastest fc4) (\<lambda>fc5.
          ebind (send_slowest fc5) (\<lambda>fc6.
            if \<not> left_empty fc6 then
              ebind (retrieve_fastest fc6) (\<lambda>fc7. Inr (False, fc7))
            else Inr (False, fc6)))))))"

text \<open>The loop itself; \<open>None\<close> is a loop that runs forever.\<close>

partial_function (option) cross_loop :: "FastCrossing \<Rightarrow> (error + FastCrossing) option" where
  "cross_loop fc =
     (if \<not> left_empty fc then
        (case loop_body fc of
           Inl e \<Rightarrow> Some (Inl e)
         | Inr (brk, fc') \<Rightarrow> if brk then Some (Inr fc') else cross_loop fc')
      else Some (Inr fc))"

declare cross_loop.simps [code]

text \<open>
  \<open>cross\<close> clears the history, copies the initial state and records it, treats zero and
  one person apart and runs the loop otherwise. The result is the history; an error is an
  \<open>assert\<close> that failed, which ends the program without a history.
\<close>

definition cross :: "CrossingState \<Rightarrow> (error + CrossingHistory) option" where
  "cross initial_state =
     (let fc = snap \<lparr>hist = [], state = initial_state\<rparr> in
      if 0 = size_area (lb (state fc)) then Some (Inr (hist fc))
      else if 1 = size_area (lb (state fc)) then
        Some (ebind (fastest_l_to_b fc) (\<lambda>fc1.
              ebind (fc_all_b_to_r (snap fc1)) (\<lambda>fc2. Inr (hist (snap fc2)))))
      else
        (case cross_loop fc of
           None \<Rightarrow> None
         | Some r \<Rightarrow> Some (ebind r (\<lambda>fc'. Inr (hist fc')))))"

text \<open>The default data of \<open>main\<close>.\<close>

definition default_people :: "Person list" where
  "default_people =
     [\<lparr>name = ''A'', ID = 1, time = 1\<rparr>, \<lparr>name = ''B'', ID = 2, time = 2\<rparr>,
      \<lparr>name = ''C'', ID = 3, time = 5\<rparr>, \<lparr>name = ''D'', ID = 4, time = 10\<rparr>]"

section \<open>Well-formed states and invariants\<close>

subsection \<open>Well-formed states\<close>

text \<open>
  The members of a \<open>std::set\<close> are in strictly ascending order. An initial state is
  well-formed when everybody is on the left bank.
\<close>

definition ordered :: "Area \<Rightarrow> bool" where
  "ordered a = sorted_wrt person_less a"

definition well_formed_initial :: "CrossingState \<Rightarrow> bool" where
  "well_formed_initial s = (ordered (lb s) \<and> bridge s = [] \<and> rb s = [])"

subsection \<open>Invariants of the strategy\<close>

text \<open>
  \<open>P\<close> is the left bank of the initial state. A state conserves \<open>P\<close> when its three areas
  are ordered and hold, together, each person of \<open>P\<close> once. A strategy object is good when
  its state and all its snapshots do, no snapshot with more than two persons on the bridge.
\<close>

definition conserved :: "Person list \<Rightarrow> CrossingState \<Rightarrow> bool" where
  "conserved P s =
     (ordered (lb s) \<and> ordered (bridge s) \<and> ordered (rb s) \<and>
      mset (lb s @ bridge s @ rb s) = mset P)"

definition good :: "Person list \<Rightarrow> FastCrossing \<Rightarrow> bool" where
  "good P fc =
     (conserved P (state fc) \<and> (\<forall>c\<in>set (hist fc). conserved P c \<and> length (bridge c) \<le> 2))"

text \<open>What holds after each group of moves that ends with a snapshot.\<close>

definition settled :: "Person list \<Rightarrow> FastCrossing \<Rightarrow> bool" where
  "settled P fc =
     (good P fc \<and> bridge (state fc) = [] \<and> hist fc \<noteq> [] \<and> last (hist fc) = state fc)"

subsection \<open>Sequences of transfers\<close>

text \<open>The transfer operations of \<open>CrossingState\<close>, and a sequence of them run from a state
  until one fails.\<close>

datatype move = L_to_b Person | B_to_r Person | R_to_b Person | B_to_l Person
  | All_b_to_r | All_b_to_l

fun apply_move :: "move \<Rightarrow> CrossingState \<Rightarrow> error + CrossingState" where
  "apply_move (L_to_b p) s = l_to_b p s"
| "apply_move (B_to_r p) s = b_to_r p s"
| "apply_move (R_to_b p) s = r_to_b p s"
| "apply_move (B_to_l p) s = b_to_l p s"
| "apply_move All_b_to_r s = all_b_to_r s"
| "apply_move All_b_to_l s = all_b_to_l s"

fun apply_moves :: "move list \<Rightarrow> CrossingState \<Rightarrow> error + CrossingState" where
  "apply_moves [] s = Inr s"
| "apply_moves (m # ms) s = ebind (apply_move m s) (apply_moves ms)"

subsection \<open>Renaming persons\<close>

text \<open>
  To compare two runs, the persons of one are mapped to the persons of the other by a
  function \<open>f\<close> that keeps \<open>operator <\<close> on the persons \<open>U\<close> of the run.
\<close>

definition map_state :: "(Person \<Rightarrow> Person) \<Rightarrow> CrossingState \<Rightarrow> CrossingState" where
  "map_state f s = \<lparr>lb = map f (lb s), bridge = map f (bridge s), rb = map f (rb s)\<rparr>"

definition map_fc :: "(Person \<Rightarrow> Person) \<Rightarrow> FastCrossing \<Rightarrow> FastCrossing" where
  "map_fc f fc = \<lparr>hist = map (map_state f) (hist fc), state = map_state f (state fc)\<rparr>"

definition persons_in :: "Person set \<Rightarrow> CrossingState \<Rightarrow> bool" where
  "persons_in U s = (set (lb s) \<union> set (bridge s) \<union> set (rb s) \<subseteq> U)"

definition embedding :: "Person set \<Rightarrow> (Person \<Rightarrow> Person) \<Rightarrow> bool" where
  "embedding U f = (\<forall>a\<in>U. \<forall>b\<in>U. person_less (f a) (f b) = person_less a b)"

text \<open>
  An operation commutes with \<open>f\<close> when, run on the image of a state whose persons are
  in \<open>U\<close>, it gives the image (under \<open>g\<close>) of what it gives on the state, and its
  result satisfies \<open>Q\<close>.
\<close>

definition commutes ::
  "Person set \<Rightarrow> (Person \<Rightarrow> Person) \<Rightarrow> ('a \<Rightarrow> 'a) \<Rightarrow> ('a \<Rightarrow> bool) \<Rightarrow>
   (FastCrossing \<Rightarrow> error + 'a) \<Rightarrow> bool" where
  "commutes U f g Q op =
     (\<forall>fc. persons_in U (state fc) \<longrightarrow>
        op (map_fc f fc) = map_sum id g (op fc) \<and> (\<forall>r. op fc = Inr r \<longrightarrow> Q r))"

text \<open>The function that sends the members of one area to those of another, place by place.\<close>

definition pair_up :: "Area \<Rightarrow> Area \<Rightarrow> Person \<Rightarrow> Person" where
  "pair_up xs ys p = (case map_of (zip xs ys) p of Some q \<Rightarrow> q | None \<Rightarrow> p)"

abbreviation commutes_fc ::
  "Person set \<Rightarrow> (Person \<Rightarrow> Person) \<Rightarrow> (FastCrossing \<Rightarrow> error + FastCrossing) \<Rightarrow> bool" where
  "commutes_fc U f op \<equiv> commutes U f (map_fc f) (\<lambda>fc. persons_in U (state fc)) op"

section \<open>Properties\<close>

subsection \<open>The ordered set\<close>

lemma person_less_trans: "person_less a b \<Longrightarrow> person_less b c \<Longrightarrow> person_less a c"
  by (auto simp: person_less_def split: if_splits)

lemma person_less_asym: "person_less a b \<Longrightarrow> \<not> person_less b a"
  by (auto simp: person_less_def split: if_splits)

lemma person_equiv_key:
  "(\<not> person_less a b \<and> \<not> person_less b a) = (time a = time b \<and> ID a = ID b)"
  by (auto simp: person_less_def split: if_splits)

lemma ordered_Cons: "ordered (q # qs) = ((\<forall>x\<in>set qs. person_less q x) \<and> ordered qs)"
  by (simp add: ordered_def)

lemma ordered_distinct: "ordered a \<Longrightarrow> distinct a"
  by (induction a) (auto simp: ordered_Cons person_less_irrefl)

lemma set_set_insert: "set (set_insert p a) \<subseteq> insert p (set a)"
  by (induction a) auto

lemma set_set_erase: "set (set_erase p a) \<subseteq> set a"
  by (induction a) auto

lemma ordered_set_insert: "ordered a \<Longrightarrow> ordered (set_insert p a)"
proof (induction a)
  case Nil
  then show ?case by (simp add: ordered_def)
next
  case (Cons q qs)
  show ?case
  proof (cases "person_less p q")
    case True
    with Cons.prems show ?thesis
      by (auto simp: ordered_Cons intro: person_less_trans)
  next
    case False
    with Cons set_set_insert [of p qs] show ?thesis
      by (auto simp: ordered_Cons)
  qed
qed

lemma ordered_set_erase: "ordered a \<Longrightarrow> ordered (set_erase p a)"
  using set_set_erase [of p] by (induction a) (auto simp: ordered_Cons)

lemma mset_set_insert:
  "\<forall>q\<in>set a. person_less p q \<or> person_less q p \<Longrightarrow>
   mset (set_insert p a) = add_mset p (mset a)"
  by (induction a) auto

lemma mset_set_erase:
  "ordered a \<Longrightarrow> p \<in> set a \<Longrightarrow> mset (set_erase p a) = mset a - {#p#}"
proof (induction a)
  case Nil
  then show ?case by simp
next
  case (Cons q qs)
  show ?case
  proof (cases "p = q")
    case True
    then show ?thesis by (simp add: person_less_irrefl)
  next
    case False
    with Cons.prems have mem: "p \<in> set qs" and lt: "person_less q p"
      by (auto simp: ordered_Cons)
    from lt have "\<not> (\<not> person_less p q \<and> \<not> person_less q p)" by simp
    with Cons mem False show ?thesis by (simp add: ordered_Cons)
  qed
qed

lemma ordered_Area_of_vector: "ordered (Area_of_vector people)"
proof -
  have "ordered a \<Longrightarrow> ordered (fold add_person people a)" for a
    by (induction people arbitrary: a) (simp_all add: add_person_def ordered_set_insert)
  then show ?thesis by (simp add: Area_of_vector_def ordered_def)
qed

text \<open>The states that the constructor makes from a vector are well-formed.\<close>

lemma well_formed_CrossingState_of_vector:
  "well_formed_initial (CrossingState_of_vector people)"
  by (simp add: well_formed_initial_def CrossingState_of_vector_def ordered_Area_of_vector)

subsection \<open>Moves keep the persons\<close>

lemma ordered_total:
  "ordered P \<Longrightarrow> a \<in> set P \<Longrightarrow> b \<in> set P \<Longrightarrow> a \<noteq> b \<Longrightarrow> person_less a b \<or> person_less b a"
  by (induction P) (auto simp: ordered_Cons)

lemma length_set_insert_fresh:
  "\<forall>q\<in>set a. person_less p q \<or> person_less q p \<Longrightarrow> length (set_insert p a) = length a + 1"
  using mset_set_insert [of a p] by (metis size_mset size_add_mset Suc_eq_plus1)

lemma move_conserved:
  assumes P: "ordered P" and a: "ordered a" and b: "ordered b"
    and m: "mset (a @ b @ c) = mset P" and p: "p \<in> set a"
  shows "ordered (set_erase p a)" and "ordered (set_insert p b)"
    and "mset (set_erase p a @ set_insert p b @ c) = mset P"
    and "length (set_erase p a) + 1 = length a"
    and "length (set_insert p b) = length b + 1"
proof -
  from m have s: "set (a @ b @ c) = set P" by (rule mset_eq_setD)
  from m P have d: "distinct (a @ b @ c)"
    using ordered_distinct mset_eq_imp_distinct_iff by blast
  have fresh: "\<forall>q\<in>set b. person_less p q \<or> person_less q p"
  proof
    fix q assume q: "q \<in> set b"
    with p d have "p \<noteq> q" by auto
    moreover from p q s have "p \<in> set P" "q \<in> set P" by auto
    ultimately show "person_less p q \<or> person_less q p" using P ordered_total by blast
  qed
  show "ordered (set_erase p a)" using a by (rule ordered_set_erase)
  show "ordered (set_insert p b)" using b by (rule ordered_set_insert)
  have e: "mset (set_erase p a) = mset a - {#p#}" using a p by (rule mset_set_erase)
  have i: "mset (set_insert p b) = add_mset p (mset b)" using fresh by (rule mset_set_insert)
  from p have "add_mset p (mset a - {#p#}) = mset a" by simp
  with e i m show "mset (set_erase p a @ set_insert p b @ c) = mset P"
    by (metis mset_append union_mset_add_mset_left union_mset_add_mset_right)
  from e p show "length (set_erase p a) + 1 = length a"
    by (metis Suc_eq_plus1 \<open>add_mset p (mset a - {#p#}) = mset a\<close> size_add_mset size_mset)
  from fresh show "length (set_insert p b) = length b + 1" by (rule length_set_insert_fresh)
qed

lemma transfer_all_Nil: "transfer_all [] to = Inr ([], to)"
  by (subst transfer_all.simps) (simp add: empty_def size_area_def)

lemma transfer_all_conserved:
  assumes P: "ordered P"
  shows "ordered a \<Longrightarrow> ordered b \<Longrightarrow> mset (a @ b @ c) = mset P \<Longrightarrow>
    \<exists>b'. transfer_all a b = Inr ([], b') \<and> ordered b' \<and> mset (b' @ c) = mset P
       \<and> length b' = length a + length b"
proof (induction a b rule: transfer_all.induct)
  case (1 "from" to)
  show ?case
  proof (cases "from = []")
    case True
    with "1.prems" show ?thesis by (simp add: transfer_all_Nil)
  next
    case False
    let ?p = "last from"
    have ne: "\<not> empty from" using False by (simp add: empty_def size_area_def)
    have sl: "slowest from = Inr ?p" using ne by (simp add: slowest_def)
    have mem: "?p \<in> set from" using False by simp
    note mv = move_conserved [OF P "1.prems"(1) "1.prems"(2) "1.prems"(3) mem]
    have "\<exists>b'. transfer_all (set_erase ?p from) (set_insert ?p to) = Inr ([], b') \<and> ordered b'
        \<and> mset (b' @ c) = mset P
        \<and> length b' = length (set_erase ?p from) + length (set_insert ?p to)"
      by (rule "1.IH" [OF ne sl _ mv(1) mv(2) mv(3)]) (simp add: transfer_def)
    with mv(4) mv(5) ne sl show ?thesis
      by (subst transfer_all.simps) (auto simp: transfer_def)
  qed
qed

lemma conserved_length:
  "conserved P s \<Longrightarrow> length (lb s) + length (bridge s) + length (rb s) = length P"
  by (metis conserved_def length_append add.assoc size_mset)

lemma l_to_b_step:
  assumes P: "ordered P" and c: "conserved P s" and p: "p \<in> set (lb s)"
    and n: "length (bridge s) < 2"
  shows "\<exists>s'. l_to_b p s = Inr s' \<and> conserved P s' \<and> length (lb s') + 1 = length (lb s)
     \<and> length (bridge s') = length (bridge s) + 1 \<and> rb s' = rb s"
proof -
  from c have a: "ordered (lb s)" and b: "ordered (bridge s)" and r: "ordered (rb s)"
    and m: "mset (lb s @ bridge s @ rb s) = mset P"
    by (simp_all add: conserved_def)
  note mv = move_conserved [OF P a b m p]
  from n mv r show ?thesis
    by (simp add: l_to_b_def transfer_def size_area_def conserved_def)
qed

lemma r_to_b_step:
  assumes P: "ordered P" and c: "conserved P s" and p: "p \<in> set (rb s)"
    and n: "length (bridge s) < 2"
  shows "\<exists>s'. r_to_b p s = Inr s' \<and> conserved P s' \<and> length (rb s') + 1 = length (rb s)
     \<and> length (bridge s') = length (bridge s) + 1 \<and> lb s' = lb s"
proof -
  from c have a: "ordered (lb s)" and b: "ordered (bridge s)" and r: "ordered (rb s)"
    and m: "mset (rb s @ bridge s @ lb s) = mset P"
    by (simp_all add: conserved_def ac_simps)
  note mv = move_conserved [OF P r b m p]
  from mv(3) have "mset (lb s @ set_insert p (bridge s) @ set_erase p (rb s)) = mset P"
    by (simp add: ac_simps)
  with n mv a show ?thesis
    by (simp add: r_to_b_def transfer_def size_area_def conserved_def)
qed

lemma all_b_to_r_step:
  assumes P: "ordered P" and c: "conserved P s"
  shows "\<exists>s'. all_b_to_r s = Inr s' \<and> conserved P s' \<and> bridge s' = [] \<and> lb s' = lb s"
proof -
  from c have a: "ordered (lb s)" and b: "ordered (bridge s)" and r: "ordered (rb s)"
    and m: "mset (bridge s @ rb s @ lb s) = mset P"
    by (simp_all add: conserved_def ac_simps)
  from transfer_all_conserved [OF P b r m] obtain r'
    where t: "transfer_all (bridge s) (rb s) = Inr ([], r')" and o: "ordered r'"
      and m': "mset (r' @ lb s) = mset P" by blast
  from m' have "mset (lb s @ r') = mset P" by (simp add: ac_simps)
  with t o a show ?thesis
    by (simp add: all_b_to_r_def ebind_def conserved_def ordered_def)
qed

lemma all_b_to_l_step:
  assumes P: "ordered P" and c: "conserved P s"
  shows "\<exists>s'. all_b_to_l s = Inr s' \<and> conserved P s' \<and> bridge s' = []
     \<and> length (lb s') = length (bridge s) + length (lb s) \<and> rb s' = rb s"
proof -
  from c have a: "ordered (lb s)" and b: "ordered (bridge s)" and r: "ordered (rb s)"
    and m: "mset (bridge s @ lb s @ rb s) = mset P"
    by (simp_all add: conserved_def ac_simps)
  from transfer_all_conserved [OF P b a m] obtain l'
    where t: "transfer_all (bridge s) (lb s) = Inr ([], l')" and o: "ordered l'"
      and m': "mset (l' @ rb s) = mset P" and n: "length l' = length (bridge s) + length (lb s)"
    by blast
  with r show ?thesis
    by (simp add: all_b_to_l_def ebind_def conserved_def ordered_def)
qed

subsection \<open>The steps of the strategy\<close>

lemma snap_good:
  "good P fc \<Longrightarrow> length (bridge (state fc)) \<le> 2 \<Longrightarrow>
   good P (snap fc) \<and> state (snap fc) = state fc \<and> hist (snap fc) = hist fc @ [state fc]"
  by (auto simp: good_def snap_def record_state_def)

lemma fastest_l_to_b_good:
  assumes P: "ordered P" and g: "good P fc" and ne: "lb (state fc) \<noteq> []"
    and n: "length (bridge (state fc)) < 2"
  shows "\<exists>fc'. fastest_l_to_b fc = Inr fc' \<and> good P fc' \<and> hist fc' = hist fc
     \<and> length (lb (state fc')) + 1 = length (lb (state fc))
     \<and> length (bridge (state fc')) = length (bridge (state fc)) + 1"
proof -
  from g have c: "conserved P (state fc)" by (simp add: good_def)
  from ne have mem: "hd (lb (state fc)) \<in> set (lb (state fc))" by simp
  from l_to_b_step [OF P c mem n] obtain s'
    where "l_to_b (hd (lb (state fc))) (state fc) = Inr s'" and "conserved P s'"
      and "length (lb s') + 1 = length (lb (state fc))"
      and "length (bridge s') = length (bridge (state fc)) + 1" by blast
  with ne g show ?thesis
    by (simp add: fastest_l_to_b_def fastest_def empty_def size_area_def ebind_def good_def)
qed

lemma slowest_l_to_b_good:
  assumes P: "ordered P" and g: "good P fc" and ne: "lb (state fc) \<noteq> []"
    and n: "length (bridge (state fc)) < 2"
  shows "\<exists>fc'. slowest_l_to_b fc = Inr fc' \<and> good P fc' \<and> hist fc' = hist fc
     \<and> length (lb (state fc')) + 1 = length (lb (state fc))
     \<and> length (bridge (state fc')) = length (bridge (state fc)) + 1"
proof -
  from g have c: "conserved P (state fc)" by (simp add: good_def)
  from ne have mem: "last (lb (state fc)) \<in> set (lb (state fc))" by simp
  from l_to_b_step [OF P c mem n] obtain s'
    where "l_to_b (last (lb (state fc))) (state fc) = Inr s'" and "conserved P s'"
      and "length (lb s') + 1 = length (lb (state fc))"
      and "length (bridge s') = length (bridge (state fc)) + 1" by blast
  with ne g show ?thesis
    by (simp add: slowest_l_to_b_def slowest_def empty_def size_area_def ebind_def good_def)
qed

lemma fastest_r_to_b_good:
  assumes P: "ordered P" and g: "good P fc" and ne: "rb (state fc) \<noteq> []"
    and n: "length (bridge (state fc)) < 2"
  shows "\<exists>fc'. fastest_r_to_b fc = Inr fc' \<and> good P fc' \<and> hist fc' = hist fc
     \<and> lb (state fc') = lb (state fc)
     \<and> length (bridge (state fc')) = length (bridge (state fc)) + 1"
proof -
  from g have c: "conserved P (state fc)" by (simp add: good_def)
  from ne have mem: "hd (rb (state fc)) \<in> set (rb (state fc))" by simp
  from r_to_b_step [OF P c mem n] obtain s'
    where "r_to_b (hd (rb (state fc))) (state fc) = Inr s'" and "conserved P s'"
      and "lb s' = lb (state fc)"
      and "length (bridge s') = length (bridge (state fc)) + 1" by blast
  with ne g show ?thesis
    by (simp add: fastest_r_to_b_def fastest_def empty_def size_area_def ebind_def good_def)
qed

lemma fc_all_b_to_r_good:
  assumes P: "ordered P" and g: "good P fc"
  shows "\<exists>fc'. fc_all_b_to_r fc = Inr fc' \<and> good P fc' \<and> hist fc' = hist fc
     \<and> bridge (state fc') = [] \<and> lb (state fc') = lb (state fc)"
proof -
  from g have c: "conserved P (state fc)" by (simp add: good_def)
  from all_b_to_r_step [OF P c] obtain s'
    where "all_b_to_r (state fc) = Inr s'" and "conserved P s'" and "bridge s' = []"
      and "lb s' = lb (state fc)" by blast
  with g show ?thesis by (simp add: fc_all_b_to_r_def ebind_def good_def)
qed

lemma fc_all_b_to_l_good:
  assumes P: "ordered P" and g: "good P fc"
  shows "\<exists>fc'. fc_all_b_to_l fc = Inr fc' \<and> good P fc' \<and> hist fc' = hist fc
     \<and> bridge (state fc') = []
     \<and> length (lb (state fc')) = length (bridge (state fc)) + length (lb (state fc))"
proof -
  from g have c: "conserved P (state fc)" by (simp add: good_def)
  from all_b_to_l_step [OF P c] obtain s'
    where "all_b_to_l (state fc) = Inr s'" and "conserved P s'" and "bridge s' = []"
      and "length (lb s') = length (bridge (state fc)) + length (lb (state fc))" by blast
  with g show ?thesis by (simp add: fc_all_b_to_l_def ebind_def good_def)
qed

lemma retrieve_fastest_settled:
  assumes P: "ordered P" and g: "good P fc" and b: "bridge (state fc) = []"
    and ne: "rb (state fc) \<noteq> []"
  shows "\<exists>fc'. retrieve_fastest fc = Inr fc' \<and> settled P fc'
     \<and> length (lb (state fc')) = length (lb (state fc)) + 1"
proof -
  from b have n: "length (bridge (state fc)) < 2" by simp
  from fastest_r_to_b_good [OF P g ne n] obtain fc1
    where 1: "fastest_r_to_b fc = Inr fc1" and g1: "good P fc1"
      and l1: "lb (state fc1) = lb (state fc)"
      and b1: "length (bridge (state fc1)) = length (bridge (state fc)) + 1" by blast
  from b b1 have "length (bridge (state fc1)) \<le> 2" by simp
  from snap_good [OF g1 this] have g2: "good P (snap fc1)"
    and s2: "state (snap fc1) = state fc1" by simp_all
  from fc_all_b_to_l_good [OF P g2] obtain fc3
    where 3: "fc_all_b_to_l (snap fc1) = Inr fc3" and g3: "good P fc3"
      and b3: "bridge (state fc3) = []"
      and l3: "length (lb (state fc3)) =
        length (bridge (state (snap fc1))) + length (lb (state (snap fc1)))" by blast
  from b3 have "length (bridge (state fc3)) \<le> 2" by simp
  from snap_good [OF g3 this] b3 have "settled P (snap fc3)"
    by (simp add: settled_def)
  moreover from l3 s2 l1 b1 b have "length (lb (state (snap fc3))) = length (lb (state fc)) + 1"
    by (simp add: snap_def)
  ultimately show ?thesis using 1 3
    by (simp add: retrieve_fastest_def ebind_def)
qed

lemma send_slowest_settled:
  assumes P: "ordered P" and g: "good P fc" and b: "bridge (state fc) = []"
    and ne: "2 \<le> length (lb (state fc))"
  shows "\<exists>fc'. send_slowest fc = Inr fc' \<and> settled P fc'
     \<and> length (lb (state fc')) + 2 = length (lb (state fc))"
proof -
  from b have n: "length (bridge (state fc)) < 2" by simp
  from ne have ne0: "lb (state fc) \<noteq> []" by auto
  from slowest_l_to_b_good [OF P g ne0 n] obtain fc1
    where 1: "slowest_l_to_b fc = Inr fc1" and g1: "good P fc1"
      and l1: "length (lb (state fc1)) + 1 = length (lb (state fc))"
      and b1: "length (bridge (state fc1)) = length (bridge (state fc)) + 1" by blast
  from l1 ne have ne1: "lb (state fc1) \<noteq> []" by auto
  from b1 b have n1: "length (bridge (state fc1)) < 2" by simp
  from slowest_l_to_b_good [OF P g1 ne1 n1] obtain fc2
    where 2: "slowest_l_to_b fc1 = Inr fc2" and g2: "good P fc2"
      and l2: "length (lb (state fc2)) + 1 = length (lb (state fc1))"
      and b2: "length (bridge (state fc2)) = length (bridge (state fc1)) + 1" by blast
  from b b1 b2 have "length (bridge (state fc2)) \<le> 2" by simp
  from snap_good [OF g2 this] have g3: "good P (snap fc2)"
    and s3: "state (snap fc2) = state fc2" by simp_all
  from fc_all_b_to_r_good [OF P g3] obtain fc4
    where 4: "fc_all_b_to_r (snap fc2) = Inr fc4" and g4: "good P fc4"
      and b4: "bridge (state fc4) = []"
      and l4: "lb (state fc4) = lb (state (snap fc2))" by blast
  from b4 have "length (bridge (state fc4)) \<le> 2" by simp
  from snap_good [OF g4 this] b4 have "settled P (snap fc4)"
    by (simp add: settled_def)
  moreover from l4 s3 l2 l1 have "length (lb (state (snap fc4))) + 2 = length (lb (state fc))"
    by (simp add: snap_def)
  ultimately show ?thesis using 1 2 4
    by (simp add: send_slowest_def ebind_def)
qed

lemma left_empty_iff: "left_empty fc = (lb (state fc) = [])"
  by (auto simp: left_empty_def empty_def size_area_def)

lemma send_fastest_settled:
  assumes P: "ordered P" and g: "good P fc" and b: "bridge (state fc) = []"
    and ne: "2 \<le> length (lb (state fc))"
  shows "\<exists>fc1 fc2 fc3. fastest_l_to_b fc = Inr fc1 \<and> fastest_l_to_b fc1 = Inr fc2
     \<and> fc_all_b_to_r (snap fc2) = Inr fc3 \<and> settled P (snap fc3)
     \<and> length (lb (state (snap fc3))) + 2 = length (lb (state fc))"
proof -
  from b have n: "length (bridge (state fc)) < 2" by simp
  from ne have ne0: "lb (state fc) \<noteq> []" by auto
  from fastest_l_to_b_good [OF P g ne0 n] obtain fc1
    where 1: "fastest_l_to_b fc = Inr fc1" and g1: "good P fc1"
      and l1: "length (lb (state fc1)) + 1 = length (lb (state fc))"
      and b1: "length (bridge (state fc1)) = length (bridge (state fc)) + 1" by blast
  from l1 ne have ne1: "lb (state fc1) \<noteq> []" by auto
  from b1 b have n1: "length (bridge (state fc1)) < 2" by simp
  from fastest_l_to_b_good [OF P g1 ne1 n1] obtain fc2
    where 2: "fastest_l_to_b fc1 = Inr fc2" and g2: "good P fc2"
      and l2: "length (lb (state fc2)) + 1 = length (lb (state fc1))"
      and b2: "length (bridge (state fc2)) = length (bridge (state fc1)) + 1" by blast
  from b b1 b2 have "length (bridge (state fc2)) \<le> 2" by simp
  from snap_good [OF g2 this] have g3: "good P (snap fc2)"
    and s3: "state (snap fc2) = state fc2" by simp_all
  from fc_all_b_to_r_good [OF P g3] obtain fc4
    where 4: "fc_all_b_to_r (snap fc2) = Inr fc4" and g4: "good P fc4"
      and b4: "bridge (state fc4) = []"
      and l4: "lb (state fc4) = lb (state (snap fc2))" by blast
  from b4 have "length (bridge (state fc4)) \<le> 2" by simp
  from snap_good [OF g4 this] b4 have "settled P (snap fc4)"
    by (simp add: settled_def)
  moreover from l4 s3 l2 l1 have "length (lb (state (snap fc4))) + 2 = length (lb (state fc))"
    by (simp add: snap_def)
  ultimately show ?thesis using 1 2 4 by blast
qed

lemma settled_rb_nonempty:
  assumes "settled P fc" and "length (lb (state fc)) < length P"
  shows "rb (state fc) \<noteq> []"
proof -
  from assms(1) have "conserved P (state fc)" and "bridge (state fc) = []"
    by (simp_all add: settled_def good_def)
  with conserved_length [of P "state fc"] assms(2) show ?thesis by auto
qed

lemma loop_body_settled:
  assumes P: "ordered P" and s: "settled P fc" and ne: "2 \<le> length (lb (state fc))"
  shows "\<exists>brk fc'. loop_body fc = Inr (brk, fc') \<and> settled P fc'
     \<and> (brk \<longrightarrow> lb (state fc') = [])
     \<and> length (lb (state fc')) < length (lb (state fc))
     \<and> length (lb (state fc')) \<noteq> 1"
proof -
  from s have g: "good P fc" and b: "bridge (state fc) = []" by (simp_all add: settled_def)
  from g have "conserved P (state fc)" by (simp add: good_def)
  from conserved_length [OF this] have le: "length (lb (state fc)) \<le> length P" by simp
  from ne have ne0: "lb (state fc) \<noteq> []" by auto
  from send_fastest_settled [OF P g b ne] obtain fc1 fc2 fc3
    where 1: "fastest_l_to_b fc = Inr fc1" and 2: "fastest_l_to_b fc1 = Inr fc2"
      and 3: "fc_all_b_to_r (snap fc2) = Inr fc3" and s4: "settled P (snap fc3)"
      and l4: "length (lb (state (snap fc3))) + 2 = length (lb (state fc))" by blast
  let ?fc4 = "snap fc3"
  show ?thesis
  proof (cases "lb (state ?fc4) = []")
    case True
    with 1 2 3 s4 ne0 show ?thesis
      by (auto simp: loop_body_def ebind_def Let_def left_empty_iff)
  next
    case False
    from s4 have g4: "good P ?fc4" and b4: "bridge (state ?fc4) = []"
      by (simp_all add: settled_def)
    from l4 le have "length (lb (state ?fc4)) < length P" by simp
    from settled_rb_nonempty [OF s4 this] have r4: "rb (state ?fc4) \<noteq> []" .
    from retrieve_fastest_settled [OF P g4 b4 r4] obtain fc5
      where 5: "retrieve_fastest ?fc4 = Inr fc5" and s5: "settled P fc5"
        and l5: "length (lb (state fc5)) = length (lb (state ?fc4)) + 1" by blast
    from s5 have g5: "good P fc5" and b5: "bridge (state fc5) = []"
      by (simp_all add: settled_def)
    from False l5 have ne5: "2 \<le> length (lb (state fc5))"
      by (cases "lb (state ?fc4)") simp_all
    from send_slowest_settled [OF P g5 b5 ne5] obtain fc6
      where 6: "send_slowest fc5 = Inr fc6" and s6: "settled P fc6"
        and l6: "length (lb (state fc6)) + 2 = length (lb (state fc5))" by blast
    show ?thesis
    proof (cases "lb (state fc6) = []")
      case True
      with 1 2 3 5 6 s6 False ne0 show ?thesis
        by (auto simp: loop_body_def ebind_def Let_def left_empty_iff)
    next
      case ne6: False
      from s6 have g6: "good P fc6" and b6: "bridge (state fc6) = []"
        by (simp_all add: settled_def)
      from l6 l5 l4 le have "length (lb (state fc6)) < length P" by simp
      from settled_rb_nonempty [OF s6 this] have r6: "rb (state fc6) \<noteq> []" .
      from retrieve_fastest_settled [OF P g6 b6 r6] obtain fc7
        where 7: "retrieve_fastest fc6 = Inr fc7" and s7: "settled P fc7"
          and l7: "length (lb (state fc7)) = length (lb (state fc6)) + 1" by blast
      from ne6 have "0 < length (lb (state fc6))" by simp
      with l7 l6 l5 l4 have "length (lb (state fc7)) < length (lb (state fc))"
        and "length (lb (state fc7)) \<noteq> 1" by arith+
      with 1 2 3 5 6 7 s7 False ne6 show ?thesis
        by (auto simp: loop_body_def ebind_def Let_def left_empty_iff)
    qed
  qed
qed

lemma cross_loop_settled:
  assumes P: "ordered P"
  shows "settled P fc \<Longrightarrow> length (lb (state fc)) \<noteq> 1 \<Longrightarrow>
    \<exists>fc'. cross_loop fc = Some (Inr fc') \<and> settled P fc' \<and> lb (state fc') = []"
proof (induction "length (lb (state fc))" arbitrary: fc rule: less_induct)
  case less
  show ?case
  proof (cases "lb (state fc) = []")
    case True
    with less.prems show ?thesis
      by (subst cross_loop.simps) (simp add: left_empty_iff)
  next
    case False
    then have "length (lb (state fc)) \<noteq> 0" by simp
    with less.prems(2) have ne: "2 \<le> length (lb (state fc))" by arith
    from loop_body_settled [OF P less.prems(1) ne] obtain brk fc'
      where b: "loop_body fc = Inr (brk, fc')" and s: "settled P fc'"
        and e: "brk \<longrightarrow> lb (state fc') = []"
        and d: "length (lb (state fc')) < length (lb (state fc))"
        and n1: "length (lb (state fc')) \<noteq> 1" by blast
    show ?thesis
    proof (cases brk)
      case True
      with b s e False show ?thesis
        by (subst cross_loop.simps) (simp add: left_empty_iff)
    next
      case nb: False
      from less.hyps [OF d s n1] obtain fc''
        where "cross_loop fc' = Some (Inr fc'')" and "settled P fc''"
          and "lb (state fc'') = []" by blast
      with b nb False show ?thesis
        by (subst cross_loop.simps) (simp add: left_empty_iff)
    qed
  qed
qed

lemma initial_settled:
  assumes "well_formed_initial s"
  shows "settled (lb s) (snap \<lparr>hist = [], state = s\<rparr>)"
  using assms
  by (simp add: well_formed_initial_def settled_def good_def conserved_def snap_def
      record_state_def ordered_def)

lemma cross_settled:
  assumes wf: "well_formed_initial s"
  shows "\<exists>h. cross s = Some (Inr h) \<and> h \<noteq> []
     \<and> (\<forall>c\<in>set h. conserved (lb s) c \<and> length (bridge c) \<le> 2)
     \<and> lb (last h) = [] \<and> bridge (last h) = []"
proof -
  let ?P = "lb s"
  let ?fc = "snap \<lparr>hist = [], state = s\<rparr>"
  from wf have P: "ordered ?P" by (simp add: well_formed_initial_def)
  from initial_settled [OF wf] have s0: "settled ?P ?fc" .
  then have g: "good ?P ?fc" and b: "bridge (state ?fc) = []"
    by (simp_all add: settled_def)
  have st: "state ?fc = s" by (simp add: snap_def)
  have fin: "\<exists>h. Some (Inr (hist fc')) = Some (Inr h) \<and> h \<noteq> []
     \<and> (\<forall>c\<in>set h. conserved ?P c \<and> length (bridge c) \<le> 2)
     \<and> lb (last h) = [] \<and> bridge (last h) = []"
    if "settled ?P fc'" and "lb (state fc') = []" for fc'
    using that by (simp add: settled_def good_def)
  consider (zero) "length ?P = 0" | (one) "length ?P = 1" | (more) "2 \<le> length ?P"
    by arith
  then show ?thesis
  proof cases
    case zero
    with fin [OF s0] st show ?thesis
      by (simp add: cross_def Let_def size_area_def)
  next
    case one
    then have ne: "lb (state ?fc) \<noteq> []" using st by auto
    from b have n: "length (bridge (state ?fc)) < 2" by simp
    from fastest_l_to_b_good [OF P g ne n] obtain fc1
      where 1: "fastest_l_to_b ?fc = Inr fc1" and g1: "good ?P fc1"
        and l1: "length (lb (state fc1)) + 1 = length (lb (state ?fc))"
        and b1: "length (bridge (state fc1)) = length (bridge (state ?fc)) + 1" by blast
    from b b1 have "length (bridge (state fc1)) \<le> 2" by simp
    from snap_good [OF g1 this] have g2: "good ?P (snap fc1)"
      and s2: "state (snap fc1) = state fc1" by simp_all
    from fc_all_b_to_r_good [OF P g2] obtain fc3
      where 3: "fc_all_b_to_r (snap fc1) = Inr fc3" and g3: "good ?P fc3"
        and b3: "bridge (state fc3) = []"
        and l3: "lb (state fc3) = lb (state (snap fc1))" by blast
    from b3 have "length (bridge (state fc3)) \<le> 2" by simp
    from snap_good [OF g3 this] b3 have s4: "settled ?P (snap fc3)"
      by (simp add: settled_def)
    from l3 s2 l1 st one have "lb (state (snap fc3)) = []" by (simp add: snap_def)
    moreover from one have "lb s \<noteq> []" by auto
    ultimately show ?thesis using fin [OF s4] 1 3 one st
      by (simp add: cross_def Let_def size_area_def ebind_def)
  next
    case more
    then have "length (lb (state ?fc)) \<noteq> 1" using st by simp
    from cross_loop_settled [OF P s0 this] obtain fc'
      where l: "cross_loop ?fc = Some (Inr fc')" and s': "settled ?P fc'"
        and e: "lb (state fc') = []" by blast
    note l
    moreover from more have "lb s \<noteq> []" and "length (lb s) \<noteq> Suc 0" by auto
    ultimately show ?thesis using fin [OF s' e] st
      by (simp add: cross_def Let_def size_area_def ebind_def)
  qed
qed

subsection \<open>The default data\<close>

text \<open>
  Claim C1. On the four persons of \<open>main\<close> (crossing times 1, 2, 5 and 10, all on the left
  bank), \<open>cross\<close> returns a history of total time 17. Its snapshots, given by the crossing
  times on the left bank, on the bridge and on the right bank, are: 1 and 2 cross (2),
  1 returns (1), 5 and 10 cross (10), 2 returns (2), 1 and 2 cross (2).
\<close>

theorem cross_default_people:
  "case cross (CrossingState_of_vector default_people) of
     Some (Inr h) \<Rightarrow>
       total_time h = Inr 17 \<and>
       map speed_across_bridge h =
         [Inr 0, Inr 2, Inr 0, Inr 1, Inr 0, Inr 10, Inr 0, Inr 2, Inr 0, Inr 2, Inr 0] \<and>
       map (\<lambda>c. (map time (lb c), map time (bridge c), map time (rb c))) h =
         [([1, 2, 5, 10], [], []),
          ([5, 10], [1, 2], []), ([5, 10], [], [1, 2]),
          ([5, 10], [1], [2]), ([1, 5, 10], [], [2]),
          ([1], [5, 10], [2]), ([1], [], [2, 5, 10]),
          ([1], [2], [5, 10]), ([1, 2], [], [5, 10]),
          ([], [1, 2], [5, 10]), ([], [], [1, 2, 5, 10])]
   | _ \<Rightarrow> False"
  by code_simp

subsection \<open>Everybody arrives, nobody is lost\<close>

lemma conserved_partition:
  assumes P: "ordered P" and c: "conserved P c"
  shows "distinct (lb c @ bridge c @ rb c)" and "set (lb c @ bridge c @ rb c) = set P"
    and "distinct (map ID P) \<Longrightarrow> distinct (map ID (lb c @ bridge c @ rb c))"
proof -
  from c have m: "mset (lb c @ bridge c @ rb c) = mset P" by (simp add: conserved_def)
  from m P show "distinct (lb c @ bridge c @ rb c)"
    using ordered_distinct mset_eq_imp_distinct_iff by blast
  from m show "set (lb c @ bridge c @ rb c) = set P" by (rule mset_eq_setD)
  from m have "mset (map ID (lb c @ bridge c @ rb c)) = mset (map ID P)"
    by (metis mset_map)
  then show "distinct (map ID P) \<Longrightarrow> distinct (map ID (lb c @ bridge c @ rb c))"
    using mset_eq_imp_distinct_iff by blast
qed

text \<open>
  Claim C2. From a well-formed initial state (everybody on the left bank, bridge and right
  bank empty) \<open>cross\<close> returns a history in whose last snapshot the right bank holds
  exactly the persons of the initial left bank, and the left bank and bridge are empty.
\<close>

theorem cross_all_on_destination:
  assumes "well_formed_initial s"
  shows "\<exists>h. cross s = Some (Inr h) \<and> h \<noteq> [] \<and>
    set (rb (last h)) = set (lb s) \<and> size_area (rb (last h)) = size_area (lb s) \<and>
    lb (last h) = [] \<and> bridge (last h) = []"
proof -
  from cross_settled [OF assms] obtain h
    where h: "cross s = Some (Inr h)" and ne: "h \<noteq> []"
      and all: "\<forall>c\<in>set h. conserved (lb s) c \<and> length (bridge c) \<le> 2"
      and l: "lb (last h) = []" and b: "bridge (last h) = []" by blast
  from ne all have c: "conserved (lb s) (last h)" by simp
  from assms have P: "ordered (lb s)" by (simp add: well_formed_initial_def)
  from conserved_partition(2) [OF P c] l b have "set (rb (last h)) = set (lb s)" by simp
  moreover from conserved_length [OF c] l b have "size_area (rb (last h)) = size_area (lb s)"
    by (simp add: size_area_def)
  ultimately show ?thesis using h ne l b by blast
qed

theorem cross_all_on_destination_witness:
  "well_formed_initial (CrossingState_of_vector default_people) \<and>
   (\<exists>h. cross (CrossingState_of_vector default_people) = Some (Inr h) \<and> h \<noteq> [] \<and>
     set (rb (last h)) = set (lb (CrossingState_of_vector default_people)) \<and>
     size_area (rb (last h)) = size_area (lb (CrossingState_of_vector default_people)) \<and>
     lb (last h) = [] \<and> bridge (last h) = [])"
proof -
  have wf: "well_formed_initial (CrossingState_of_vector default_people)" by code_simp
  from cross_all_on_destination [OF wf] wf show ?thesis by blast
qed

text \<open>
  Claim C3. In every snapshot that \<open>cross\<close> records from a well-formed initial state with
  \<open>N\<close> persons, the sizes of the three areas add up to \<open>N\<close>, the three areas are
  pairwise disjoint, and together they hold the persons of the initial state. Where the
  identifiers of the initial state are distinct, no identifier occurs twice in a snapshot.
\<close>

theorem cross_conserves_participants:
  assumes "well_formed_initial s"
  shows "\<exists>h. cross s = Some (Inr h) \<and> h \<noteq> [] \<and>
    (\<forall>c\<in>set h.
       size_area (lb c) + size_area (bridge c) + size_area (rb c) = size_area (lb s) \<and>
       set (lb c) \<inter> set (bridge c) = {} \<and> set (lb c) \<inter> set (rb c) = {} \<and>
       set (bridge c) \<inter> set (rb c) = {} \<and>
       set (lb c) \<union> set (bridge c) \<union> set (rb c) = set (lb s) \<and>
       (distinct (map ID (lb s)) \<longrightarrow> distinct (map ID (lb c @ bridge c @ rb c))))"
proof -
  from cross_settled [OF assms] obtain h
    where h: "cross s = Some (Inr h)" "h \<noteq> []"
      and all: "\<forall>c\<in>set h. conserved (lb s) c \<and> length (bridge c) \<le> 2" by blast
  from assms have P: "ordered (lb s)" by (simp add: well_formed_initial_def)
  have "size_area (lb c) + size_area (bridge c) + size_area (rb c) = size_area (lb s) \<and>
       set (lb c) \<inter> set (bridge c) = {} \<and> set (lb c) \<inter> set (rb c) = {} \<and>
       set (bridge c) \<inter> set (rb c) = {} \<and>
       set (lb c) \<union> set (bridge c) \<union> set (rb c) = set (lb s) \<and>
       (distinct (map ID (lb s)) \<longrightarrow> distinct (map ID (lb c @ bridge c @ rb c)))"
    if "c \<in> set h" for c
  proof -
    from all that have c: "conserved (lb s) c" by simp
    from conserved_partition(1) [OF P c]
    have "set (lb c) \<inter> set (bridge c) = {}" "set (lb c) \<inter> set (rb c) = {}"
      "set (bridge c) \<inter> set (rb c) = {}" by auto
    moreover from conserved_partition(2) [OF P c]
    have "set (lb c) \<union> set (bridge c) \<union> set (rb c) = set (lb s)" by auto
    moreover from conserved_length [OF c]
    have "size_area (lb c) + size_area (bridge c) + size_area (rb c) = size_area (lb s)"
      by (simp add: size_area_def)
    ultimately show ?thesis using conserved_partition(3) [OF P c] by blast
  qed
  with h show ?thesis by blast
qed

theorem cross_conserves_participants_witness:
  "well_formed_initial (CrossingState_of_vector default_people) \<and>
   distinct (map ID (lb (CrossingState_of_vector default_people))) \<and>
   (\<exists>h. cross (CrossingState_of_vector default_people) = Some (Inr h) \<and> h \<noteq> [] \<and>
    (\<forall>c\<in>set h.
       size_area (lb c) + size_area (bridge c) + size_area (rb c) = 4 \<and>
       set (lb c) \<inter> set (bridge c) = {} \<and> set (lb c) \<inter> set (rb c) = {} \<and>
       set (bridge c) \<inter> set (rb c) = {} \<and>
       set (lb c) \<union> set (bridge c) \<union> set (rb c) = set default_people \<and>
       distinct (map ID (lb c @ bridge c @ rb c))))"
proof -
  have wf: "well_formed_initial (CrossingState_of_vector default_people)" by code_simp
  have d: "distinct (map ID (lb (CrossingState_of_vector default_people)))" by code_simp
  have l: "lb (CrossingState_of_vector default_people) = default_people" by code_simp
  have n: "size_area default_people = 4" by code_simp
  from cross_conserves_participants [OF wf] wf d show ?thesis
    unfolding l n by blast
qed

subsection \<open>One person\<close>

text \<open>
  Claim C7. With exactly one person \<open>p\<close> on the left bank and nobody elsewhere, \<open>cross\<close>
  returns three snapshots (the initial state, \<open>p\<close> on the bridge, \<open>p\<close> on the right bank),
  and their total time is the crossing time of \<open>p\<close>.
\<close>

theorem cross_single_person:
  "\<exists>h. cross \<lparr>lb = [p], bridge = [], rb = []\<rparr> = Some (Inr h) \<and>
     h = [\<lparr>lb = [p], bridge = [], rb = []\<rparr>,
          \<lparr>lb = [], bridge = [p], rb = []\<rparr>,
          \<lparr>lb = [], bridge = [], rb = [p]\<rparr>] \<and>
     length h = 3 \<and> total_time h = Inr (time p)"
  by (simp add: cross_def snap_def record_state_def size_area_def fastest_l_to_b_def
      fastest_def empty_def ebind_def l_to_b_def transfer_def person_less_irrefl
      fc_all_b_to_r_def all_b_to_r_def slowest_def total_time_def speed_across_bridge_def
      transfer_all.simps)

subsection \<open>Termination\<close>

text \<open>
  The effect of each move on the sizes of the left bank and of the bridge, for every state
  whatsoever: these lemmas need no invariant.
\<close>

lemma length_set_insert_le: "length (set_insert p a) \<le> length a + 1"
  by (induction a) auto

lemma transfer_all_result:
  "transfer_all a b = Inr (a', b') \<Longrightarrow> a' = [] \<and> length b' \<le> length a + length b"
proof (induction a b rule: transfer_all.induct)
  case (1 "from" to)
  show ?case
  proof (cases "from = []")
    case True
    with "1.prems" show ?thesis by (simp add: transfer_all_Nil)
  next
    case False
    let ?p = "last from"
    have ne: "\<not> empty from" using False by (simp add: empty_def size_area_def)
    have sl: "slowest from = Inr ?p" using ne by (simp add: slowest_def)
    from "1.prems" ne sl
    have r: "transfer_all (set_erase ?p from) (set_insert ?p to) = Inr (a', b')"
      by (subst (asm) transfer_all.simps) (simp add: transfer_def)
    have "a' = [] \<and> length b' \<le> length (set_erase ?p from) + length (set_insert ?p to)"
      by (rule "1.IH" [OF ne sl _ r]) (simp add: transfer_def)
    moreover from False have "length (set_erase ?p from) < length from"
      by (simp add: length_set_erase_mem)
    moreover note length_set_insert_le [of ?p to]
    ultimately show ?thesis by simp
  qed
qed

lemma ebind_Inr: "(ebind m f = Inr y) = (\<exists>x. m = Inr x \<and> f x = Inr y)"
  by (cases m) (simp_all add: ebind_def)

lemma fastest_l_to_b_effect:
  "fastest_l_to_b fc = Inr fc' \<Longrightarrow>
   length (lb (state fc')) < length (lb (state fc)) \<and>
   length (bridge (state fc')) \<le> length (bridge (state fc)) + 1"
  using length_set_insert_le [of "hd (lb (state fc))" "bridge (state fc)"]
  by (auto simp: fastest_l_to_b_def fastest_def l_to_b_def transfer_def ebind_Inr
      empty_def size_area_def length_set_erase_mem split: if_splits)

lemma slowest_l_to_b_effect:
  "slowest_l_to_b fc = Inr fc' \<Longrightarrow>
   length (lb (state fc')) < length (lb (state fc)) \<and>
   length (bridge (state fc')) \<le> length (bridge (state fc)) + 1"
  using length_set_insert_le [of "last (lb (state fc))" "bridge (state fc)"]
  by (auto simp: slowest_l_to_b_def slowest_def l_to_b_def transfer_def ebind_Inr
      empty_def size_area_def length_set_erase_mem split: if_splits)

lemma fastest_r_to_b_effect:
  "fastest_r_to_b fc = Inr fc' \<Longrightarrow>
   lb (state fc') = lb (state fc) \<and>
   length (bridge (state fc')) \<le> length (bridge (state fc)) + 1"
  using length_set_insert_le [of "hd (rb (state fc))" "bridge (state fc)"]
  by (auto simp: fastest_r_to_b_def fastest_def r_to_b_def transfer_def ebind_Inr
      empty_def size_area_def split: if_splits)

lemma fc_all_b_to_r_effect:
  "fc_all_b_to_r fc = Inr fc' \<Longrightarrow>
   lb (state fc') = lb (state fc) \<and> bridge (state fc') = []"
  by (auto simp: fc_all_b_to_r_def all_b_to_r_def ebind_Inr dest: transfer_all_result)

lemma fc_all_b_to_l_effect:
  "fc_all_b_to_l fc = Inr fc' \<Longrightarrow>
   length (lb (state fc')) \<le> length (bridge (state fc)) + length (lb (state fc)) \<and>
   bridge (state fc') = []"
  by (auto simp: fc_all_b_to_l_def all_b_to_l_def ebind_Inr dest: transfer_all_result)

lemma state_snap: "state (snap fc) = state fc"
  by (simp add: snap_def)

lemma retrieve_fastest_effect:
  assumes "retrieve_fastest fc = Inr fc'"
  shows "length (lb (state fc')) \<le> length (lb (state fc)) + length (bridge (state fc)) + 1"
proof -
  from assms obtain fc1 fc2
    where 1: "fastest_r_to_b fc = Inr fc1" and 2: "fc_all_b_to_l (snap fc1) = Inr fc2"
      and 3: "fc' = snap fc2"
    by (auto simp: retrieve_fastest_def ebind_Inr)
  from fastest_r_to_b_effect [OF 1] fc_all_b_to_l_effect [OF 2] 3 show ?thesis
    by (simp add: state_snap)
qed

lemma send_slowest_effect:
  assumes "send_slowest fc = Inr fc'"
  shows "length (lb (state fc')) + 2 \<le> length (lb (state fc)) \<and> bridge (state fc') = []"
proof -
  from assms obtain fc1 fc2 fc3
    where 1: "slowest_l_to_b fc = Inr fc1" and 2: "slowest_l_to_b fc1 = Inr fc2"
      and 3: "fc_all_b_to_r (snap fc2) = Inr fc3" and 4: "fc' = snap fc3"
    by (auto simp: send_slowest_def ebind_Inr)
  from slowest_l_to_b_effect [OF 1] slowest_l_to_b_effect [OF 2] fc_all_b_to_r_effect [OF 3] 4
  show ?thesis by (simp add: state_snap)
qed

lemma loop_body_decreases:
  assumes "loop_body fc = Inr (brk, fc')"
  shows "length (lb (state fc')) < length (lb (state fc))"
proof -
  from assms obtain fc1 fc2 fc3
    where 1: "fastest_l_to_b fc = Inr fc1" and 2: "fastest_l_to_b fc1 = Inr fc2"
      and 3: "fc_all_b_to_r (snap fc2) = Inr fc3"
      and rest: "(if left_empty (snap fc3) then Inr (True, snap fc3)
        else ebind (retrieve_fastest (snap fc3)) (\<lambda>fc5.
             ebind (send_slowest fc5) (\<lambda>fc6.
               if \<not> left_empty fc6 then
                 ebind (retrieve_fastest fc6) (\<lambda>fc7. Inr (False, fc7))
               else Inr (False, fc6)))) = Inr (brk, fc')"
    by (auto simp: loop_body_def ebind_Inr Let_def)
  from fastest_l_to_b_effect [OF 1] fastest_l_to_b_effect [OF 2] fc_all_b_to_r_effect [OF 3]
  have l4: "length (lb (state (snap fc3))) + 2 \<le> length (lb (state fc))"
    and b4: "bridge (state (snap fc3)) = []"
    by (simp_all add: state_snap)
  show ?thesis
  proof (cases "left_empty (snap fc3)")
    case True
    with rest l4 show ?thesis by auto
  next
    case False
    with rest obtain fc5 fc6
      where 5: "retrieve_fastest (snap fc3) = Inr fc5" and 6: "send_slowest fc5 = Inr fc6"
        and rest': "(if \<not> left_empty fc6 then
                 ebind (retrieve_fastest fc6) (\<lambda>fc7. Inr (False, fc7))
               else Inr (False, fc6)) = Inr (brk, fc')"
      by (auto simp: ebind_Inr)
    from retrieve_fastest_effect [OF 5] b4 send_slowest_effect [OF 6] l4
    have l6: "length (lb (state fc6)) + 3 \<le> length (lb (state fc))"
      and b6: "bridge (state fc6) = []" by simp_all
    show ?thesis
    proof (cases "left_empty fc6")
      case True
      with rest' l6 show ?thesis by auto
    next
      case False
      with rest' have "retrieve_fastest fc6 = Inr fc'" by (auto simp: ebind_Inr)
      from retrieve_fastest_effect [OF this] b6 l6 show ?thesis by simp
    qed
  qed
qed

lemma cross_loop_returns: "\<exists>r. cross_loop fc = Some r"
proof (induction "length (lb (state fc))" arbitrary: fc rule: less_induct)
  case less
  show ?case
  proof (cases "left_empty fc")
    case True
    then show ?thesis by (subst cross_loop.simps) simp
  next
    case ne: False
    show ?thesis
    proof (cases "loop_body fc")
      case (Inl e)
      with ne show ?thesis by (subst cross_loop.simps) simp
    next
      case (Inr r)
      obtain brk fc' where r: "r = (brk, fc')" by (cases r)
      show ?thesis
      proof (cases brk)
        case True
        with ne Inr r show ?thesis by (subst cross_loop.simps) simp
      next
        case False
        from Inr r have "loop_body fc = Inr (brk, fc')" by simp
        from less.hyps [OF loop_body_decreases [OF this]]
        obtain r' where "cross_loop fc' = Some r'" by blast
        with ne Inr r False show ?thesis by (subst cross_loop.simps) simp
      qed
    qed
  qed
qed

text \<open>
  Claim C8. \<open>cross\<close> terminates: it returns a result, a history or a failed \<open>assert\<close>,
  on every state, so in particular on the well-formed initial ones. The reason is that
  every pass through the body of the loop that completes leaves strictly fewer persons
  on the left bank.
\<close>

theorem cross_terminates:
  "(\<exists>r. cross s = Some r) \<and>
   (loop_body fc = Inr (brk, fc') \<longrightarrow>
      size_area (lb (state fc')) < size_area (lb (state fc)))"
proof
  obtain r where "cross_loop (snap \<lparr>hist = [], state = s\<rparr>) = Some r"
    using cross_loop_returns by blast
  then show "\<exists>r. cross s = Some r" by (simp add: cross_def Let_def)
next
  show "loop_body fc = Inr (brk, fc') \<longrightarrow>
      size_area (lb (state fc')) < size_area (lb (state fc))"
    using loop_body_decreases by (simp add: size_area_def)
qed

theorem cross_terminates_witness:
  "(\<exists>r. cross (CrossingState_of_vector default_people) = Some r) \<and>
   (case loop_body \<lparr>hist = [], state = CrossingState_of_vector default_people\<rparr> of
      Inr (brk, fc') \<Rightarrow> \<not> brk \<and> size_area (lb (state fc')) = 2 \<and>
         size_area (lb (state \<lparr>hist = [], state = CrossingState_of_vector default_people\<rparr>)) = 4
    | Inl e \<Rightarrow> False)"
proof -
  have "case loop_body \<lparr>hist = [], state = CrossingState_of_vector default_people\<rparr> of
      Inr (brk, fc') \<Rightarrow> \<not> brk \<and> size_area (lb (state fc')) = 2 \<and>
         size_area (lb (state \<lparr>hist = [], state = CrossingState_of_vector default_people\<rparr>)) = 4
    | Inl e \<Rightarrow> False"
    by code_simp
  with cross_terminates [of "CrossingState_of_vector default_people"] show ?thesis by blast
qed

subsection \<open>No failed assertion\<close>

text \<open>
  Claim C9. From a well-formed initial state \<open>cross\<close> returns a history: none of the
  \<open>assert\<close>s of \<open>l_to_b\<close>, \<open>r_to_b\<close>, \<open>fastest\<close> and \<open>slowest\<close> fails, since a failed one
  would be the result. In particular, when the bridge is empty, the first of two moves
  from the left bank leaves exactly one person on it, so that the second finds
  \<open>bridge.size() < 2\<close>.
\<close>

theorem cross_no_contract_violation:
  assumes "well_formed_initial s"
  shows "(\<exists>h. cross s = Some (Inr h)) \<and>
    (\<forall>fc fc1. bridge (state fc) = [] \<and>
       (fastest_l_to_b fc = Inr fc1 \<or> slowest_l_to_b fc = Inr fc1) \<longrightarrow>
       size_area (bridge (state fc1)) = 1)"
proof
  show "\<exists>h. cross s = Some (Inr h)" using cross_settled [OF assms] by blast
next
  show "\<forall>fc fc1. bridge (state fc) = [] \<and>
       (fastest_l_to_b fc = Inr fc1 \<or> slowest_l_to_b fc = Inr fc1) \<longrightarrow>
       size_area (bridge (state fc1)) = 1"
    by (auto simp: fastest_l_to_b_def slowest_l_to_b_def l_to_b_def transfer_def ebind_Inr
        size_area_def split: if_splits)
qed

theorem cross_no_contract_violation_witness:
  "well_formed_initial (CrossingState_of_vector default_people) \<and>
   (\<exists>h. cross (CrossingState_of_vector default_people) = Some (Inr h)) \<and>
   bridge (state \<lparr>hist = [], state = CrossingState_of_vector default_people\<rparr>) = [] \<and>
   (\<exists>fc1. fastest_l_to_b \<lparr>hist = [], state = CrossingState_of_vector default_people\<rparr> = Inr fc1
      \<and> size_area (bridge (state fc1)) = 1)"
proof -
  have wf: "well_formed_initial (CrossingState_of_vector default_people)" by code_simp
  have b: "bridge (state \<lparr>hist = [], state = CrossingState_of_vector default_people\<rparr>) = []"
    by code_simp
  have "case fastest_l_to_b \<lparr>hist = [], state = CrossingState_of_vector default_people\<rparr> of
      Inr fc1 \<Rightarrow> True | Inl e \<Rightarrow> False" by code_simp
  then obtain fc1
    where f: "fastest_l_to_b \<lparr>hist = [], state = CrossingState_of_vector default_people\<rparr> = Inr fc1"
    by (auto split: sum.splits)
  from cross_no_contract_violation [OF wf] wf b f show ?thesis by blast
qed

subsection \<open>The capacity of the bridge\<close>

lemma apply_move_bridge:
  assumes "apply_move m s = Inr s'" and "length (bridge s) \<le> 2"
  shows "length (bridge s') \<le> 2"
proof (cases m)
  case (L_to_b p)
  with assms length_set_insert_le [of p "bridge s"] show ?thesis
    by (auto simp: l_to_b_def transfer_def size_area_def split: if_splits)
next
  case (B_to_r p)
  with assms length_set_erase_le [of p "bridge s"] show ?thesis
    by (auto simp: b_to_r_def transfer_def)
next
  case (R_to_b p)
  with assms length_set_insert_le [of p "bridge s"] show ?thesis
    by (auto simp: r_to_b_def transfer_def size_area_def split: if_splits)
next
  case (B_to_l p)
  with assms length_set_erase_le [of p "bridge s"] show ?thesis
    by (auto simp: b_to_l_def transfer_def)
next
  case All_b_to_r
  with assms show ?thesis
    by (auto simp: all_b_to_r_def ebind_Inr dest: transfer_all_result)
next
  case All_b_to_l
  with assms show ?thesis
    by (auto simp: all_b_to_l_def ebind_Inr dest: transfer_all_result)
qed

lemma apply_moves_bridge:
  "apply_moves ms s = Inr s' \<Longrightarrow> length (bridge s) \<le> 2 \<Longrightarrow> length (bridge s') \<le> 2"
proof (induction ms arbitrary: s)
  case Nil
  then show ?case by simp
next
  case (Cons m ms)
  from Cons.prems(1) obtain s1 where 1: "apply_move m s = Inr s1"
    and 2: "apply_moves ms s1 = Inr s'" by (auto simp: ebind_Inr)
  from apply_move_bridge [OF 1 Cons.prems(2)] show ?case by (rule Cons.IH [OF 2])
qed

text \<open>
  Claim C4. From a well-formed initial state, the bridge holds at most two persons after
  every sequence of transfer operations of \<open>CrossingState\<close> that complete, and in every
  snapshot that \<open>cross\<close> records.
\<close>

theorem bridge_holds_at_most_two:
  assumes "well_formed_initial s"
  shows "(\<forall>ms s'. apply_moves ms s = Inr s' \<longrightarrow> size_area (bridge s') \<le> 2) \<and>
    (\<exists>h. cross s = Some (Inr h) \<and> h \<noteq> [] \<and> (\<forall>c\<in>set h. size_area (bridge c) \<le> 2))"
proof
  from assms have "length (bridge s) \<le> 2" by (simp add: well_formed_initial_def)
  then show "\<forall>ms s'. apply_moves ms s = Inr s' \<longrightarrow> size_area (bridge s') \<le> 2"
    using apply_moves_bridge by (auto simp: size_area_def)
next
  from cross_settled [OF assms]
  show "\<exists>h. cross s = Some (Inr h) \<and> h \<noteq> [] \<and> (\<forall>c\<in>set h. size_area (bridge c) \<le> 2)"
    by (auto simp: size_area_def)
qed

theorem bridge_holds_at_most_two_witness:
  "well_formed_initial (CrossingState_of_vector default_people) \<and>
   (\<exists>s'. apply_moves
      [L_to_b \<lparr>name = ''A'', ID = 1, time = 1\<rparr>, L_to_b \<lparr>name = ''D'', ID = 4, time = 10\<rparr>]
      (CrossingState_of_vector default_people) = Inr s' \<and> size_area (bridge s') \<le> 2) \<and>
   (\<exists>h. cross (CrossingState_of_vector default_people) = Some (Inr h) \<and> h \<noteq> [] \<and>
      (\<forall>c\<in>set h. size_area (bridge c) \<le> 2))"
proof -
  have wf: "well_formed_initial (CrossingState_of_vector default_people)" by code_simp
  have "case apply_moves
      [L_to_b \<lparr>name = ''A'', ID = 1, time = 1\<rparr>, L_to_b \<lparr>name = ''D'', ID = 4, time = 10\<rparr>]
      (CrossingState_of_vector default_people) of Inr s' \<Rightarrow> True | Inl e \<Rightarrow> False"
    by code_simp
  then obtain s' where "apply_moves
      [L_to_b \<lparr>name = ''A'', ID = 1, time = 1\<rparr>, L_to_b \<lparr>name = ''D'', ID = 4, time = 10\<rparr>]
      (CrossingState_of_vector default_people) = Inr s'"
    by (auto split: sum.splits)
  with bridge_holds_at_most_two [OF wf] wf show ?thesis by blast
qed

subsection \<open>Transferring a person who is not there\<close>

lemma set_erase_absent:
  "\<forall>q\<in>set a. person_less p q \<or> person_less q p \<Longrightarrow> set_erase p a = a"
  by (induction a) auto

lemma set_insert_present:
  "\<exists>q\<in>set (set_insert p a). \<not> person_less p q \<and> \<not> person_less q p"
  by (induction a) (auto simp: person_less_irrefl)

text \<open>
  Claim C5, as the specification states it: \<open>transfer\<close> of a person who is not in the
  area fails. It does not: \<open>std::set::erase\<close> of an absent key does nothing, and the person
  is then inserted into the other area. Here person A is moved from a left bank that
  holds only B, and ends on the bridge; the state has a person more than before.
\<close>

theorem transfer_absent_counterexample:
  "\<lparr>name = ''A'', ID = 1, time = 1\<rparr> \<notin> set [\<lparr>name = ''B'', ID = 2, time = 2\<rparr>] \<and>
   transfer \<lparr>name = ''A'', ID = 1, time = 1\<rparr> [\<lparr>name = ''B'', ID = 2, time = 2\<rparr>] [] =
     ([\<lparr>name = ''B'', ID = 2, time = 2\<rparr>], [\<lparr>name = ''A'', ID = 1, time = 1\<rparr>]) \<and>
   l_to_b \<lparr>name = ''A'', ID = 1, time = 1\<rparr>
     \<lparr>lb = [\<lparr>name = ''B'', ID = 2, time = 2\<rparr>], bridge = [], rb = []\<rparr> =
     Inr \<lparr>lb = [\<lparr>name = ''B'', ID = 2, time = 2\<rparr>],
          bridge = [\<lparr>name = ''A'', ID = 1, time = 1\<rparr>], rb = []\<rparr>"
  by (simp add: transfer_def l_to_b_def size_area_def person_less_def)

text \<open>
  Claim C5, amended. For every area and every person \<open>p\<close> who is not in it (no member is
  equivalent to \<open>p\<close> under \<open>operator <\<close>), \<open>transfer\<close> completes: it leaves the area as
  it is and inserts \<open>p\<close> into the other area, where \<open>p\<close> or a member equivalent to \<open>p\<close> is
  present afterwards.
\<close>

theorem transfer_absent_inserts:
  assumes "\<forall>q\<in>set from. person_less p q \<or> person_less q p"
  shows "transfer p from to = (from, set_insert p to) \<and>
    (\<exists>q\<in>set (snd (transfer p from to)). \<not> person_less p q \<and> \<not> person_less q p)"
  using assms set_insert_present [of p to] by (simp add: transfer_def set_erase_absent)

theorem transfer_absent_inserts_witness:
  "(person_less \<lparr>name = ''A'', ID = 1, time = 1\<rparr> \<lparr>name = ''B'', ID = 2, time = 2\<rparr> \<or>
    person_less \<lparr>name = ''B'', ID = 2, time = 2\<rparr> \<lparr>name = ''A'', ID = 1, time = 1\<rparr>) \<and>
   transfer \<lparr>name = ''A'', ID = 1, time = 1\<rparr> [\<lparr>name = ''B'', ID = 2, time = 2\<rparr>] [] =
     ([\<lparr>name = ''B'', ID = 2, time = 2\<rparr>], set_insert \<lparr>name = ''A'', ID = 1, time = 1\<rparr> [])"
proof -
  have h: "\<forall>q\<in>set [\<lparr>name = ''B'', ID = 2, time = 2\<rparr>].
      person_less \<lparr>name = ''A'', ID = 1, time = 1\<rparr> q \<or>
      person_less q \<lparr>name = ''A'', ID = 1, time = 1\<rparr>"
    by (simp add: person_less_def)
  from transfer_absent_inserts [OF h, of "[]"] h show ?thesis by simp
qed

subsection \<open>Equality\<close>

lemma area_eq_iff: "area_eq a b = (map ID a = map ID b)"
proof -
  have "list_all2 person_eq a b = (map ID a = map ID b)"
    by (induction a arbitrary: b) (auto simp: person_eq_def list_all2_Cons1)
  moreover have "map ID a = map ID b \<Longrightarrow> length a = length b"
    by (metis length_map)
  ultimately show ?thesis by (auto simp: area_eq_def size_area_def)
qed

text \<open>
  Claim C10, as stated: equality of areas and of states holds between states whose areas
  hold the same identifiers, even when the crossing times differ. It does not always:
  \<open>operator ==\<close> of \<open>std::set\<close> compares the members pair by pair in iteration order,
  which is the order of the crossing times. Here both left banks hold the identifiers 1
  and 2, and the times put them in opposite orders.
\<close>

theorem area_eq_same_ids_counterexample:
  "set (map ID (Area_of_vector
       [\<lparr>name = ''A'', ID = 1, time = 1\<rparr>, \<lparr>name = ''B'', ID = 2, time = 2\<rparr>])) =
   set (map ID (Area_of_vector
       [\<lparr>name = ''A'', ID = 1, time = 2\<rparr>, \<lparr>name = ''B'', ID = 2, time = 1\<rparr>])) \<and>
   \<not> area_eq
       (Area_of_vector [\<lparr>name = ''A'', ID = 1, time = 1\<rparr>, \<lparr>name = ''B'', ID = 2, time = 2\<rparr>])
       (Area_of_vector [\<lparr>name = ''A'', ID = 1, time = 2\<rparr>, \<lparr>name = ''B'', ID = 2, time = 1\<rparr>]) \<and>
   \<not> state_eq
       (CrossingState_of_vector
          [\<lparr>name = ''A'', ID = 1, time = 1\<rparr>, \<lparr>name = ''B'', ID = 2, time = 2\<rparr>])
       (CrossingState_of_vector
          [\<lparr>name = ''A'', ID = 1, time = 2\<rparr>, \<lparr>name = ''B'', ID = 2, time = 1\<rparr>])"
  by (simp add: Area_of_vector_def CrossingState_of_vector_def add_person_def
      person_less_def state_eq_def area_eq_def person_eq_def insert_commute)

text \<open>
  Claim C10, amended. Equality of persons compares the identifiers only: two persons
  with the same identifier and different names and crossing times are equal. Equality of
  areas, and of states area by area, holds exactly when the two areas list the same
  identifiers in the same order of iteration, whatever the names and crossing times.
\<close>

theorem equality_by_identifier:
  "person_eq p q = (ID p = ID q) \<and>
   person_eq \<lparr>name = ''A'', ID = 1, time = 1\<rparr> \<lparr>name = ''B'', ID = 1, time = 2\<rparr> \<and>
   area_eq a b = (map ID a = map ID b) \<and>
   state_eq s t =
     (map ID (lb s) = map ID (lb t) \<and> map ID (bridge s) = map ID (bridge t) \<and>
      map ID (rb s) = map ID (rb t))"
  by (simp add: person_eq_def area_eq_iff state_eq_def)

subsection \<open>Structurally equal initial states\<close>

lemma set_insert_map:
  "embedding U f \<Longrightarrow> p \<in> U \<Longrightarrow> set a \<subseteq> U \<Longrightarrow>
   set_insert (f p) (map f a) = map f (set_insert p a)"
  by (induction a) (auto simp: embedding_def)

lemma set_erase_map:
  "embedding U f \<Longrightarrow> p \<in> U \<Longrightarrow> set a \<subseteq> U \<Longrightarrow>
   set_erase (f p) (map f a) = map f (set_erase p a)"
  by (induction a) (auto simp: embedding_def)

lemma transfer_all_map:
  assumes e: "embedding U f"
  shows "set a \<subseteq> U \<Longrightarrow> set b \<subseteq> U \<Longrightarrow>
    transfer_all (map f a) (map f b) =
      map_sum id (\<lambda>(a', b'). (map f a', map f b')) (transfer_all a b) \<and>
    (\<forall>a' b'. transfer_all a b = Inr (a', b') \<longrightarrow> set a' \<subseteq> U \<and> set b' \<subseteq> U)"
proof (induction a b rule: transfer_all.induct)
  case (1 "from" to)
  show ?case
  proof (cases "from = []")
    case True
    with "1.prems" transfer_all_Nil [of to] transfer_all_Nil [of "map f to"] show ?thesis
      by simp
  next
    case False
    let ?p = "last from"
    have ne: "\<not> empty from" using False by (simp add: empty_def size_area_def)
    have sl: "slowest from = Inr ?p" using ne by (simp add: slowest_def)
    have ne': "\<not> empty (map f from)" using False by (simp add: empty_def size_area_def)
    have sl': "slowest (map f from) = Inr (f ?p)"
      using ne' False by (simp add: slowest_def last_map)
    from False "1.prems"(1) have pU: "?p \<in> U" by auto
    have eU: "set (set_erase ?p from) \<subseteq> U" using set_set_erase "1.prems"(1) by blast
    have iU: "set (set_insert ?p to) \<subseteq> U" using set_set_insert pU "1.prems"(2) by blast
    have unf: "transfer_all from to = transfer_all (set_erase ?p from) (set_insert ?p to)"
      using ne sl by (subst transfer_all.simps) (simp add: transfer_def)
    have unf': "transfer_all (map f from) (map f to) =
        transfer_all (map f (set_erase ?p from)) (map f (set_insert ?p to))"
      using ne' sl' set_erase_map [OF e pU "1.prems"(1)] set_insert_map [OF e pU "1.prems"(2)]
      by (subst transfer_all.simps) (simp add: transfer_def)
    have "transfer_all (map f (set_erase ?p from)) (map f (set_insert ?p to)) =
      map_sum id (\<lambda>(a', b'). (map f a', map f b'))
        (transfer_all (set_erase ?p from) (set_insert ?p to)) \<and>
      (\<forall>a' b'. transfer_all (set_erase ?p from) (set_insert ?p to) = Inr (a', b') \<longrightarrow>
         set a' \<subseteq> U \<and> set b' \<subseteq> U)"
      by (rule "1.IH" [OF ne sl _ eU iU]) (simp add: transfer_def)
    then show ?thesis unfolding unf unf' .
  qed
qed

lemma map_state_sel [simp]:
  "lb (map_state f s) = map f (lb s)"
  "bridge (map_state f s) = map f (bridge s)"
  "rb (map_state f s) = map f (rb s)"
  by (simp_all add: map_state_def)

lemma map_fc_sel [simp]:
  "state (map_fc f fc) = map_state f (state fc)"
  "hist (map_fc f fc) = map (map_state f) (hist fc)"
  by (simp_all add: map_fc_def)

lemma snap_map: "snap (map_fc f fc) = map_fc f (snap fc)"
  by (simp add: snap_def map_fc_def record_state_def)

lemma left_empty_map: "left_empty (map_fc f fc) = left_empty fc"
  by (simp add: left_empty_iff)

lemma l_to_b_map:
  assumes "embedding U f" and "persons_in U s" and "p \<in> U"
  shows "l_to_b (f p) (map_state f s) = map_sum id (map_state f) (l_to_b p s) \<and>
    (\<forall>s'. l_to_b p s = Inr s' \<longrightarrow> persons_in U s')"
proof -
  from assms have l: "set (lb s) \<subseteq> U" and b: "set (bridge s) \<subseteq> U" and r: "set (rb s) \<subseteq> U"
    by (simp_all add: persons_in_def)
  from set_set_erase [of p "lb s"] l have "set (set_erase p (lb s)) \<subseteq> U" by blast
  moreover from set_set_insert [of p "bridge s"] b assms(3)
  have "set (set_insert p (bridge s)) \<subseteq> U" by blast
  ultimately show ?thesis
    using set_erase_map [OF assms(1) assms(3) l] set_insert_map [OF assms(1) assms(3) b] r
    by (simp add: l_to_b_def transfer_def size_area_def map_state_def persons_in_def)
qed

lemma r_to_b_map:
  assumes "embedding U f" and "persons_in U s" and "p \<in> U"
  shows "r_to_b (f p) (map_state f s) = map_sum id (map_state f) (r_to_b p s) \<and>
    (\<forall>s'. r_to_b p s = Inr s' \<longrightarrow> persons_in U s')"
proof -
  from assms have l: "set (lb s) \<subseteq> U" and b: "set (bridge s) \<subseteq> U" and r: "set (rb s) \<subseteq> U"
    by (simp_all add: persons_in_def)
  from set_set_erase [of p "rb s"] r have "set (set_erase p (rb s)) \<subseteq> U" by blast
  moreover from set_set_insert [of p "bridge s"] b assms(3)
  have "set (set_insert p (bridge s)) \<subseteq> U" by blast
  ultimately show ?thesis
    using set_erase_map [OF assms(1) assms(3) r] set_insert_map [OF assms(1) assms(3) b] l
    by (simp add: r_to_b_def transfer_def size_area_def map_state_def persons_in_def)
qed

lemma all_b_to_r_map:
  assumes "embedding U f" and "persons_in U s"
  shows "all_b_to_r (map_state f s) = map_sum id (map_state f) (all_b_to_r s) \<and>
    (\<forall>s'. all_b_to_r s = Inr s' \<longrightarrow> persons_in U s')"
proof -
  from assms have l: "set (lb s) \<subseteq> U" and b: "set (bridge s) \<subseteq> U" and r: "set (rb s) \<subseteq> U"
    by (simp_all add: persons_in_def)
  from transfer_all_map [OF assms(1) b r] l show ?thesis
    by (cases "transfer_all (bridge s) (rb s)")
       (auto simp: all_b_to_r_def ebind_def map_state_def persons_in_def)
qed

lemma all_b_to_l_map:
  assumes "embedding U f" and "persons_in U s"
  shows "all_b_to_l (map_state f s) = map_sum id (map_state f) (all_b_to_l s) \<and>
    (\<forall>s'. all_b_to_l s = Inr s' \<longrightarrow> persons_in U s')"
proof -
  from assms have l: "set (lb s) \<subseteq> U" and b: "set (bridge s) \<subseteq> U" and r: "set (rb s) \<subseteq> U"
    by (simp_all add: persons_in_def)
  from transfer_all_map [OF assms(1) b l] r show ?thesis
    by (cases "transfer_all (bridge s) (lb s)")
       (auto simp: all_b_to_l_def ebind_def map_state_def persons_in_def)
qed

lemma commutes_bind:
  assumes "commutes_fc U f op1" and "commutes U f g Q op2"
  shows "commutes U f g Q (\<lambda>fc. ebind (op1 fc) op2)"
  unfolding commutes_def
proof (intro allI impI)
  fix fc :: FastCrossing
  assume w: "persons_in U (state fc)"
  from assms(1) w have 1: "op1 (map_fc f fc) = map_sum id (map_fc f) (op1 fc)"
    and 2: "\<forall>r. op1 fc = Inr r \<longrightarrow> persons_in U (state r)"
    by (simp_all add: commutes_def)
  show "ebind (op1 (map_fc f fc)) op2 = map_sum id g (ebind (op1 fc) op2) \<and>
    (\<forall>r. ebind (op1 fc) op2 = Inr r \<longrightarrow> Q r)"
  proof (cases "op1 fc")
    case (Inl e)
    with 1 show ?thesis by (simp add: ebind_def)
  next
    case (Inr fc1)
    with 2 have "persons_in U (state fc1)" by simp
    with assms(2) have "op2 (map_fc f fc1) = map_sum id g (op2 fc1)"
      and "\<forall>r. op2 fc1 = Inr r \<longrightarrow> Q r"
      by (simp_all add: commutes_def)
    with 1 Inr show ?thesis by (simp add: ebind_def)
  qed
qed

lemma commutes_if:
  assumes "\<And>fc. c (map_fc f fc) = c fc" and "commutes U f g Q op1" and "commutes U f g Q op2"
  shows "commutes U f g Q (\<lambda>fc. if c fc then op1 fc else op2 fc)"
  using assms by (simp add: commutes_def)

lemma commutes_return:
  "commutes U f (map_prod id (map_fc f)) (\<lambda>r. persons_in U (state (snd r))) (\<lambda>fc. Inr (b, fc))"
  by (simp add: commutes_def)

lemma commutes_snap: "commutes_fc U f (\<lambda>fc. Inr (snap fc))"
  by (simp add: commutes_def snap_map) (simp add: snap_def)

lemma commutes_fastest_l_to_b:
  assumes "embedding U f"
  shows "commutes_fc U f fastest_l_to_b"
  unfolding commutes_def
proof (intro allI impI)
  fix fc :: FastCrossing
  assume w: "persons_in U (state fc)"
  show "fastest_l_to_b (map_fc f fc) = map_sum id (map_fc f) (fastest_l_to_b fc) \<and>
    (\<forall>r. fastest_l_to_b fc = Inr r \<longrightarrow> persons_in U (state r))"
  proof (cases "lb (state fc) = []")
    case True
    then show ?thesis
      by (simp add: fastest_l_to_b_def fastest_def empty_def size_area_def ebind_def)
  next
    case False
    with w have "hd (lb (state fc)) \<in> U" by (auto simp: persons_in_def)
    from l_to_b_map [OF assms w this] False show ?thesis
      by (cases "l_to_b (hd (lb (state fc))) (state fc)")
         (auto simp: fastest_l_to_b_def fastest_def empty_def size_area_def ebind_def hd_map
            map_fc_def)
  qed
qed

lemma commutes_slowest_l_to_b:
  assumes "embedding U f"
  shows "commutes_fc U f slowest_l_to_b"
  unfolding commutes_def
proof (intro allI impI)
  fix fc :: FastCrossing
  assume w: "persons_in U (state fc)"
  show "slowest_l_to_b (map_fc f fc) = map_sum id (map_fc f) (slowest_l_to_b fc) \<and>
    (\<forall>r. slowest_l_to_b fc = Inr r \<longrightarrow> persons_in U (state r))"
  proof (cases "lb (state fc) = []")
    case True
    then show ?thesis
      by (simp add: slowest_l_to_b_def slowest_def empty_def size_area_def ebind_def)
  next
    case False
    with w have "last (lb (state fc)) \<in> U" by (auto simp: persons_in_def)
    from l_to_b_map [OF assms w this] False show ?thesis
      by (cases "l_to_b (last (lb (state fc))) (state fc)")
         (auto simp: slowest_l_to_b_def slowest_def empty_def size_area_def ebind_def last_map
            map_fc_def)
  qed
qed

lemma commutes_fastest_r_to_b:
  assumes "embedding U f"
  shows "commutes_fc U f fastest_r_to_b"
  unfolding commutes_def
proof (intro allI impI)
  fix fc :: FastCrossing
  assume w: "persons_in U (state fc)"
  show "fastest_r_to_b (map_fc f fc) = map_sum id (map_fc f) (fastest_r_to_b fc) \<and>
    (\<forall>r. fastest_r_to_b fc = Inr r \<longrightarrow> persons_in U (state r))"
  proof (cases "rb (state fc) = []")
    case True
    then show ?thesis
      by (simp add: fastest_r_to_b_def fastest_def empty_def size_area_def ebind_def)
  next
    case False
    with w have "hd (rb (state fc)) \<in> U" by (auto simp: persons_in_def)
    from r_to_b_map [OF assms w this] False show ?thesis
      by (cases "r_to_b (hd (rb (state fc))) (state fc)")
         (auto simp: fastest_r_to_b_def fastest_def empty_def size_area_def ebind_def hd_map
            map_fc_def)
  qed
qed

lemma commutes_fc_all_b_to_r:
  assumes "embedding U f"
  shows "commutes_fc U f fc_all_b_to_r"
  unfolding commutes_def
proof (intro allI impI)
  fix fc :: FastCrossing
  assume w: "persons_in U (state fc)"
  from all_b_to_r_map [OF assms w]
  show "fc_all_b_to_r (map_fc f fc) = map_sum id (map_fc f) (fc_all_b_to_r fc) \<and>
    (\<forall>r. fc_all_b_to_r fc = Inr r \<longrightarrow> persons_in U (state r))"
    by (cases "all_b_to_r (state fc)") (auto simp: fc_all_b_to_r_def ebind_def map_fc_def)
qed

lemma commutes_fc_all_b_to_l:
  assumes "embedding U f"
  shows "commutes_fc U f fc_all_b_to_l"
  unfolding commutes_def
proof (intro allI impI)
  fix fc :: FastCrossing
  assume w: "persons_in U (state fc)"
  from all_b_to_l_map [OF assms w]
  show "fc_all_b_to_l (map_fc f fc) = map_sum id (map_fc f) (fc_all_b_to_l fc) \<and>
    (\<forall>r. fc_all_b_to_l fc = Inr r \<longrightarrow> persons_in U (state r))"
    by (cases "all_b_to_l (state fc)") (auto simp: fc_all_b_to_l_def ebind_def map_fc_def)
qed

lemma ebind_return: "ebind (Inr x) k = k x"
  by (simp add: ebind_def)

lemma commutes_retrieve_fastest:
  assumes "embedding U f"
  shows "commutes_fc U f retrieve_fastest"
proof -
  have eq: "retrieve_fastest = (\<lambda>fc. ebind (fastest_r_to_b fc) (\<lambda>fc1.
      ebind (Inr (snap fc1)) (\<lambda>fc1'. ebind (fc_all_b_to_l fc1') (\<lambda>fc2. Inr (snap fc2)))))"
    by (simp add: retrieve_fastest_def ebind_return fun_eq_iff)
  show ?thesis
    unfolding eq
    by (intro commutes_bind commutes_snap commutes_fastest_r_to_b commutes_fc_all_b_to_l assms)
qed

lemma commutes_send_slowest:
  assumes "embedding U f"
  shows "commutes_fc U f send_slowest"
proof -
  have eq: "send_slowest = (\<lambda>fc. ebind (slowest_l_to_b fc) (\<lambda>fc1.
      ebind (slowest_l_to_b fc1) (\<lambda>fc2.
      ebind (Inr (snap fc2)) (\<lambda>fc2'. ebind (fc_all_b_to_r fc2') (\<lambda>fc3. Inr (snap fc3))))))"
    by (simp add: send_slowest_def ebind_return fun_eq_iff)
  show ?thesis
    unfolding eq
    by (intro commutes_bind commutes_snap commutes_slowest_l_to_b commutes_fc_all_b_to_r assms)
qed

lemma commutes_loop_body:
  assumes "embedding U f"
  shows "commutes U f (map_prod id (map_fc f)) (\<lambda>r. persons_in U (state (snd r))) loop_body"
proof -
  have eq: "loop_body = (\<lambda>fc. ebind (fastest_l_to_b fc) (\<lambda>fc1.
      ebind (fastest_l_to_b fc1) (\<lambda>fc2.
      ebind (Inr (snap fc2)) (\<lambda>fc2'.
      ebind (fc_all_b_to_r fc2') (\<lambda>fc3.
      ebind (Inr (snap fc3)) (\<lambda>fc4.
        if left_empty fc4 then Inr (True, fc4)
        else
          ebind (retrieve_fastest fc4) (\<lambda>fc5.
          ebind (send_slowest fc5) (\<lambda>fc6.
            if \<not> left_empty fc6 then
              ebind (retrieve_fastest fc6) (\<lambda>fc7. Inr (False, fc7))
            else Inr (False, fc6)))))))))"
    by (simp add: loop_body_def ebind_return fun_eq_iff Let_def)
  show ?thesis
    unfolding eq
    by (intro commutes_bind commutes_if commutes_return commutes_snap
          commutes_fastest_l_to_b commutes_fc_all_b_to_r commutes_retrieve_fastest
          commutes_send_slowest assms; simp add: left_empty_map)
qed

lemma cross_loop_map:
  assumes e: "embedding U f"
  shows "persons_in U (state fc) \<Longrightarrow>
    cross_loop (map_fc f fc) = map_option (map_sum id (map_fc f)) (cross_loop fc)"
proof (induction "length (lb (state fc))" arbitrary: fc rule: less_induct)
  case less
  from commutes_loop_body [OF e] less.prems
  have lbm: "loop_body (map_fc f fc) = map_sum id (map_prod id (map_fc f)) (loop_body fc)"
    and cl: "\<forall>r. loop_body fc = Inr r \<longrightarrow> persons_in U (state (snd r))"
    by (simp_all add: commutes_def)
  show ?case
  proof (cases "left_empty fc")
    case True
    have "cross_loop fc = Some (Inr fc)"
      using True by (subst cross_loop.simps) simp
    moreover have "cross_loop (map_fc f fc) = Some (Inr (map_fc f fc))"
      using True by (subst cross_loop.simps) (simp add: left_empty_map)
    ultimately show ?thesis by simp
  next
    case ne: False
    show ?thesis
    proof (cases "loop_body fc")
      case (Inl err)
      have "cross_loop fc = Some (Inl err)"
        using ne Inl by (subst cross_loop.simps) simp
      moreover have "cross_loop (map_fc f fc) = Some (Inl err)"
        using ne Inl lbm by (subst cross_loop.simps) (simp add: left_empty_map)
      ultimately show ?thesis by simp
    next
      case (Inr r)
      obtain brk fc' where r: "r = (brk, fc')" by (cases r)
      from Inr r have lb: "loop_body fc = Inr (brk, fc')" by simp
      with lbm have lb': "loop_body (map_fc f fc) = Inr (brk, map_fc f fc')" by simp
      show ?thesis
      proof (cases brk)
        case True
        have "cross_loop fc = Some (Inr fc')"
          using ne lb True by (subst cross_loop.simps) simp
        moreover have "cross_loop (map_fc f fc) = Some (Inr (map_fc f fc'))"
          using ne lb' True by (subst cross_loop.simps) (simp add: left_empty_map)
        ultimately show ?thesis by simp
      next
        case False
        have "cross_loop fc = cross_loop fc'"
          using ne lb False by (subst cross_loop.simps) simp
        moreover have "cross_loop (map_fc f fc) = cross_loop (map_fc f fc')"
          using ne lb' False by (subst cross_loop.simps) (simp add: left_empty_map)
        moreover from cl lb have "persons_in U (state fc')" by auto
        from less.hyps [OF loop_body_decreases [OF lb] this]
        have "cross_loop (map_fc f fc') = map_option (map_sum id (map_fc f)) (cross_loop fc')" .
        ultimately show ?thesis by simp
      qed
    qed
  qed
qed

lemma cross_map:
  assumes e: "embedding U f" and w: "persons_in U s"
  shows "cross (map_state f s) = map_option (map_sum id (map (map_state f))) (cross s)"
proof -
  let ?fc = "snap \<lparr>hist = [], state = s\<rparr>"
  have fc: "snap \<lparr>hist = [], state = map_state f s\<rparr> = map_fc f ?fc"
    by (simp add: snap_def map_fc_def record_state_def)
  have st: "state ?fc = s" by (simp add: snap_def)
  with w have wfc: "persons_in U (state ?fc)" by simp
  have c1: "commutes U f (map (map_state f)) (\<lambda>h. True)
      (\<lambda>fc. ebind (fastest_l_to_b fc) (\<lambda>fc1.
             ebind (Inr (snap fc1)) (\<lambda>fc1'.
             ebind (fc_all_b_to_r fc1') (\<lambda>fc2. Inr (hist (snap fc2))))))"
    by (intro commutes_bind commutes_snap commutes_fastest_l_to_b commutes_fc_all_b_to_r e)
       (simp add: commutes_def snap_def record_state_def)
  from c1 wfc have one:
    "ebind (fastest_l_to_b (map_fc f ?fc)) (\<lambda>fc1.
       ebind (fc_all_b_to_r (snap fc1)) (\<lambda>fc2. Inr (hist (snap fc2)))) =
     map_sum id (map (map_state f))
      (ebind (fastest_l_to_b ?fc) (\<lambda>fc1.
       ebind (fc_all_b_to_r (snap fc1)) (\<lambda>fc2. Inr (hist (snap fc2)))))"
    by (simp add: commutes_def ebind_return)
  have more: "(case cross_loop (map_fc f ?fc) of None \<Rightarrow> None
      | Some r \<Rightarrow> Some (ebind r (\<lambda>fc'. Inr (hist fc')))) =
     map_option (map_sum id (map (map_state f)))
      (case cross_loop ?fc of None \<Rightarrow> None
       | Some r \<Rightarrow> Some (ebind r (\<lambda>fc'. Inr (hist fc'))))"
    unfolding cross_loop_map [OF e wfc]
    by (cases "cross_loop ?fc") (auto simp: ebind_def split: sum.splits)
  show ?thesis
    unfolding cross_def Let_def fc
    using one more by (simp add: size_area_def st)
qed

lemma pair_up_nth:
  assumes "distinct xs" and "length xs = length ys" and "i < length xs"
  shows "pair_up xs ys (xs ! i) = ys ! i"
  using map_of_zip_nth [of xs ys i] assms by (simp add: pair_up_def)

lemma pair_up_map:
  assumes "distinct xs" and "length xs = length ys"
  shows "map (pair_up xs ys) xs = ys"
  using assms by (intro nth_equalityI) (simp_all add: pair_up_nth)

lemma ordered_nth_less:
  assumes "ordered xs" and "i < length xs" and "j < length xs"
  shows "person_less (xs ! i) (xs ! j) = (i < j)"
proof (cases i j rule: linorder_cases)
  case less
  with assms show ?thesis by (simp add: ordered_def sorted_wrt_nth_less)
next
  case equal
  then show ?thesis by (simp add: person_less_irrefl)
next
  case greater
  with assms have "person_less (xs ! j) (xs ! i)" by (simp add: ordered_def sorted_wrt_nth_less)
  with greater show ?thesis using person_less_asym by auto
qed

lemma pair_up_embedding:
  assumes xs: "ordered xs" and ys: "ordered ys" and len: "length xs = length ys"
  shows "embedding (set xs) (pair_up xs ys)"
  unfolding embedding_def
proof (intro ballI)
  fix a b assume "a \<in> set xs" and "b \<in> set xs"
  then obtain i j where i: "i < length xs" "a = xs ! i" and j: "j < length xs" "b = xs ! j"
    by (metis in_set_conv_nth)
  from xs have d: "distinct xs" by (rule ordered_distinct)
  from i j len show "person_less (pair_up xs ys a) (pair_up xs ys b) = person_less a b"
    by (simp add: pair_up_nth [OF d len] ordered_nth_less [OF xs] ordered_nth_less [OF ys])
qed

lemma pair_up_keeps:
  assumes d: "distinct xs" and len: "length xs = length ys" and m: "map g xs = map g ys"
    and p: "p \<in> set xs"
  shows "g (pair_up xs ys p) = g p"
proof -
  from p obtain i where i: "i < length xs" "p = xs ! i" by (metis in_set_conv_nth)
  from m i len have "g (xs ! i) = g (ys ! i)" by (metis nth_map)
  with i show ?thesis by (simp add: pair_up_nth [OF d len])
qed

lemma state_eq_map_state:
  assumes "\<forall>p\<in>U. ID (f p) = ID p" and "persons_in U c"
  shows "state_eq c (map_state f c)"
  using assms by (auto simp: state_eq_def area_eq_iff persons_in_def)

lemma speed_across_bridge_map:
  assumes "\<forall>p\<in>U. time (f p) = time p" and "persons_in U c"
  shows "speed_across_bridge (map_state f c) = speed_across_bridge c"
proof (cases "bridge c = []")
  case True
  then show ?thesis by (simp add: speed_across_bridge_def empty_def size_area_def)
next
  case False
  with assms(2) have "last (bridge c) \<in> U" by (auto simp: persons_in_def)
  with assms(1) False show ?thesis
    by (simp add: speed_across_bridge_def empty_def size_area_def slowest_def ebind_def last_map)
qed

lemma total_time_from_map:
  assumes "\<forall>p\<in>U. time (f p) = time p"
  shows "\<forall>c\<in>set h. persons_in U c \<Longrightarrow>
    total_time_from t (map (map_state f) h) = total_time_from t h"
  by (induction h arbitrary: t) (simp_all add: speed_across_bridge_map [OF assms])

text \<open>
  Claim C6, as stated: structurally equal initial states give the same total time. They
  need not: \<open>operator ==\<close> on states looks at the identifiers only, and the total time
  depends on the crossing times. The two states below hold the persons 1 to 4 of the
  default data on the left bank; in the second, person 4 takes 20 instead of 10.
\<close>

theorem structurally_equal_total_time_counterexample:
  "state_eq
     (CrossingState_of_vector default_people)
     (CrossingState_of_vector
        [\<lparr>name = ''A'', ID = 1, time = 1\<rparr>, \<lparr>name = ''B'', ID = 2, time = 2\<rparr>,
         \<lparr>name = ''C'', ID = 3, time = 5\<rparr>, \<lparr>name = ''D'', ID = 4, time = 20\<rparr>]) \<and>
   (case cross (CrossingState_of_vector default_people) of
      Some (Inr h1) \<Rightarrow>
        (case cross (CrossingState_of_vector
            [\<lparr>name = ''A'', ID = 1, time = 1\<rparr>, \<lparr>name = ''B'', ID = 2, time = 2\<rparr>,
             \<lparr>name = ''C'', ID = 3, time = 5\<rparr>, \<lparr>name = ''D'', ID = 4, time = 20\<rparr>]) of
           Some (Inr h2) \<Rightarrow>
             total_time h1 = Inr 17 \<and> total_time h2 = Inr 27 \<and> total_time h1 \<noteq> total_time h2
         | _ \<Rightarrow> False)
    | _ \<Rightarrow> False)"
  by code_simp

text \<open>
  Claim C6, amended. For two well-formed initial states that are structurally equal
  (\<open>operator ==\<close>: the same identifiers in the same order on the left bank), \<open>cross\<close>
  returns two histories with the same number of snapshots, structurally equal one by
  one. Where moreover the crossing times of the two left banks agree place by place,
  the total times are equal.
\<close>

theorem cross_structurally_equal:
  assumes wf1: "well_formed_initial s1" and wf2: "well_formed_initial s2"
    and eq: "state_eq s1 s2"
  shows "\<exists>h1 h2. cross s1 = Some (Inr h1) \<and> cross s2 = Some (Inr h2) \<and>
    list_all2 state_eq h1 h2 \<and>
    (map time (lb s1) = map time (lb s2) \<longrightarrow> total_time h1 = total_time h2)"
proof -
  let ?xs = "lb s1" and ?ys = "lb s2"
  let ?f = "pair_up ?xs ?ys"
  let ?U = "set ?xs"
  from wf1 wf2 have xs: "ordered ?xs" and ys: "ordered ?ys"
    and e1: "bridge s1 = []" "rb s1 = []" and e2: "bridge s2 = []" "rb s2 = []"
    by (simp_all add: well_formed_initial_def)
  from eq have ids: "map ID ?xs = map ID ?ys" by (simp add: state_eq_def area_eq_iff)
  then have len: "length ?xs = length ?ys" by (metis length_map)
  from xs have d: "distinct ?xs" by (rule ordered_distinct)
  have s2: "s2 = map_state ?f s1"
    using pair_up_map [OF d len] e1 e2 by (simp add: map_state_def)
  have emb: "embedding ?U ?f" using xs ys len by (rule pair_up_embedding)
  have w: "persons_in ?U s1" using e1 by (simp add: persons_in_def)
  from cross_settled [OF wf1] obtain h1
    where h1: "cross s1 = Some (Inr h1)"
      and all: "\<forall>c\<in>set h1. conserved ?xs c \<and> length (bridge c) \<le> 2" by blast
  let ?h2 = "map (map_state ?f) h1"
  from cross_map [OF emb w] h1 s2 have h2: "cross s2 = Some (Inr ?h2)" by simp
  have inU: "\<forall>c\<in>set h1. persons_in ?U c"
  proof
    fix c assume "c \<in> set h1"
    with all have "conserved ?xs c" by simp
    from conserved_partition(2) [OF xs this] show "persons_in ?U c"
      by (auto simp: persons_in_def)
  qed
  have idk: "\<forall>p\<in>?U. ID (?f p) = ID p"
    using pair_up_keeps [OF d len ids] by blast
  have "list_all2 state_eq h1 ?h2"
    using inU state_eq_map_state [OF idk]
    by (simp add: list_all2_map2 list_all2_same)
  moreover have "total_time h1 = total_time ?h2" if t: "map time ?xs = map time ?ys"
  proof -
    have "\<forall>p\<in>?U. time (?f p) = time p" using pair_up_keeps [OF d len t] by blast
    from total_time_from_map [OF this inU] show ?thesis by (simp add: total_time_def)
  qed
  ultimately show ?thesis using h1 h2 by blast
qed

theorem cross_structurally_equal_witness:
  "well_formed_initial (CrossingState_of_vector default_people) \<and>
   well_formed_initial (CrossingState_of_vector
      [\<lparr>name = ''W'', ID = 1, time = 1\<rparr>, \<lparr>name = ''X'', ID = 2, time = 2\<rparr>,
       \<lparr>name = ''Y'', ID = 3, time = 5\<rparr>, \<lparr>name = ''Z'', ID = 4, time = 10\<rparr>]) \<and>
   state_eq (CrossingState_of_vector default_people)
     (CrossingState_of_vector
      [\<lparr>name = ''W'', ID = 1, time = 1\<rparr>, \<lparr>name = ''X'', ID = 2, time = 2\<rparr>,
       \<lparr>name = ''Y'', ID = 3, time = 5\<rparr>, \<lparr>name = ''Z'', ID = 4, time = 10\<rparr>]) \<and>
   map time (lb (CrossingState_of_vector default_people)) =
     map time (lb (CrossingState_of_vector
      [\<lparr>name = ''W'', ID = 1, time = 1\<rparr>, \<lparr>name = ''X'', ID = 2, time = 2\<rparr>,
       \<lparr>name = ''Y'', ID = 3, time = 5\<rparr>, \<lparr>name = ''Z'', ID = 4, time = 10\<rparr>])) \<and>
   (\<exists>h1 h2. cross (CrossingState_of_vector default_people) = Some (Inr h1) \<and>
      cross (CrossingState_of_vector
        [\<lparr>name = ''W'', ID = 1, time = 1\<rparr>, \<lparr>name = ''X'', ID = 2, time = 2\<rparr>,
         \<lparr>name = ''Y'', ID = 3, time = 5\<rparr>, \<lparr>name = ''Z'', ID = 4, time = 10\<rparr>]) = Some (Inr h2) \<and>
      list_all2 state_eq h1 h2 \<and> total_time h1 = total_time h2)"
proof -
  let ?s1 = "CrossingState_of_vector default_people"
  let ?s2 = "CrossingState_of_vector
      [\<lparr>name = ''W'', ID = 1, time = 1\<rparr>, \<lparr>name = ''X'', ID = 2, time = 2\<rparr>,
       \<lparr>name = ''Y'', ID = 3, time = 5\<rparr>, \<lparr>name = ''Z'', ID = 4, time = 10\<rparr>]"
  have wf1: "well_formed_initial ?s1" by code_simp
  have wf2: "well_formed_initial ?s2" by code_simp
  have eq: "state_eq ?s1 ?s2" by code_simp
  have t: "map time (lb ?s1) = map time (lb ?s2)" by code_simp
  from cross_structurally_equal [OF wf1 wf2 eq] wf1 wf2 eq t show ?thesis by blast
qed

end
